theory Spec2Isabelle
  imports Main
begin

section \<open>JavaScript strings\<close>

text \<open>
  A string is the list of its code units. The development covers texts whose code units
  are below 256 (Latin-1), which is what an Isabelle \<open>char\<close> holds; every pattern and
  constant of the program is ASCII. \<open>code\<close> is the numeric value of a code unit.
\<close>

definition code :: "char \<Rightarrow> int" where
  "code c = of_char c"

definition between :: "int \<Rightarrow> int \<Rightarrow> char \<Rightarrow> bool" where
  "between lo hi c = (lo \<le> code c \<and> code c \<le> hi)"

text \<open>White space of \<open>\s\<close> and of \<open>trim\<close>: TAB, LF, VT, FF, CR, space and NBSP.\<close>

definition isWhiteSpace :: "char \<Rightarrow> bool" where
  "isWhiteSpace c = (between 9 13 c \<or> code c = 32 \<or> code c = 160)"

definition isDigit :: "char \<Rightarrow> bool" where
  "isDigit c = between 48 57 c"

definition isWordChar :: "char \<Rightarrow> bool" where
  "isWordChar c = (between 97 122 c \<or> between 65 90 c \<or> isDigit c \<or> code c = 95)"

definition toLowerChar :: "char \<Rightarrow> char" where
  "toLowerChar c = (if between 65 90 c \<or> (between 192 222 c \<and> code c \<noteq> 215)
                    then char_of (code c + 32) else c)"

definition toUpperChar :: "char \<Rightarrow> char" where
  "toUpperChar c = (if between 97 122 c \<or> (between 224 254 c \<and> code c \<noteq> 247)
                    then char_of (code c - 32) else c)"

definition toLowerCase :: "string \<Rightarrow> string" where
  "toLowerCase s = map toLowerChar s"

definition trim :: "string \<Rightarrow> string" where
  "trim s = rev (dropWhile isWhiteSpace (rev (dropWhile isWhiteSpace s)))"

fun startsWith :: "string \<Rightarrow> string \<Rightarrow> bool" where
  "startsWith s [] = True"
| "startsWith [] (p # ps) = False"
| "startsWith (c # cs) (p # ps) = (c = p \<and> startsWith cs ps)"

text \<open>\<open>hay.includes(needle)\<close>\<close>

fun includesStr :: "string \<Rightarrow> string \<Rightarrow> bool" where
  "includesStr [] needle = (needle = [])"
| "includesStr (c # cs) needle = (startsWith (c # cs) needle \<or> includesStr cs needle)"

text \<open>\<open>xs.join(sep)\<close>\<close>

fun join :: "string \<Rightarrow> string list \<Rightarrow> string" where
  "join sep [] = []"
| "join sep [x] = x"
| "join sep (x # y # ys) = x @ sep @ join sep (y # ys)"

text \<open>
  An optional field (\<open>volume?: string\<close>) is a \<open>string option\<close>. Inside a template literal
  an absent field prints as \<open>undefined\<close>; \<open>field || d\<close> replaces an absent or empty field
  by \<open>d\<close>; a field is truthy when it is present and not empty.
\<close>

definition tmpl :: "string option \<Rightarrow> string" where
  "tmpl v = (case v of None \<Rightarrow> ''undefined'' | Some s \<Rightarrow> s)"

definition orElse :: "string option \<Rightarrow> string \<Rightarrow> string" where
  "orElse v d = (case v of None \<Rightarrow> d | Some s \<Rightarrow> if s = [] then d else s)"

definition truthy :: "string option \<Rightarrow> bool" where
  "truthy v = (case v of None \<Rightarrow> False | Some s \<Rightarrow> s \<noteq> [])"

text \<open>
  \<open>parseInt(s)\<close> without a radix: leading white space, an optional sign, an optional
  \<open>0x\<close> prefix, then the longest run of digits; \<open>None\<close> is \<open>NaN\<close>. The value is the exact
  integer (JavaScript rounds it to a double from \<open>2^53\<close> on, which no comparison of this
  program with its small constants can tell apart).
\<close>

definition digitVal :: "char \<Rightarrow> int" where
  "digitVal c = (if isDigit c then code c - 48
                 else if between 97 102 c then code c - 87
                 else code c - 55)"

definition isHexDigit :: "char \<Rightarrow> bool" where
  "isHexDigit c = (isDigit c \<or> between 97 102 c \<or> between 65 70 c)"

definition digitsValue :: "int \<Rightarrow> string \<Rightarrow> int" where
  "digitsValue radix ds = foldl (\<lambda>a d. a * radix + digitVal d) 0 ds"

definition parseUnsigned :: "string \<Rightarrow> int option" where
  "parseUnsigned u =
     (if startsWith u ''0x'' \<or> startsWith u ''0X''
      then (case takeWhile isHexDigit (drop 2 u) of
              [] \<Rightarrow> None
            | d # ds \<Rightarrow> Some (digitsValue 16 (d # ds)))
      else (case takeWhile isDigit u of
              [] \<Rightarrow> None
            | d # ds \<Rightarrow> Some (digitsValue 10 (d # ds))))"

definition parseInt :: "string \<Rightarrow> int option" where
  "parseInt s =
     (case dropWhile isWhiteSpace s of
        [] \<Rightarrow> None
      | c # cs \<Rightarrow>
          if c = CHR ''-'' then map_option uminus (parseUnsigned cs)
          else if c = CHR ''+'' then parseUnsigned cs
          else parseUnsigned (c # cs))"

section \<open>Regular expressions\<close>

text \<open>
  The patterns of the program use literals, character classes, \<open>.\<close>, \<open>^\<close>, \<open>$\<close>, a negative
  lookbehind of one character class, sequence, alternation, greedy and lazy quantifiers
  and capturing groups. \<open>Rep mn mx greedy r\<close> is \<open>r{mn,mx}\<close> (\<open>mx = None\<close>: unbounded),
  lazy when \<open>greedy\<close> is false. \<open>Cls neg items\<close> is \<open>[items]\<close>, or \<open>[^items]\<close> when \<open>neg\<close>.
\<close>

datatype citem = Single char | Range char char | EscD | EscW | EscS

datatype regex =
    Eps
  | Lit char
  | Cls bool "citem list"
  | Dot
  | Bos
  | Eos
  | NotBehind bool "citem list"
  | Seq regex regex
  | Alt regex regex
  | Rep nat "nat option" bool regex
  | Group nat regex

text \<open>
  Under the \<open>i\<close> flag two code units match when their canonical (upper case) forms are
  equal; for Latin-1 input against ASCII patterns that is: equal, or one is the other
  case of the other.
\<close>

definition sameChar :: "bool \<Rightarrow> char \<Rightarrow> char \<Rightarrow> bool" where
  "sameChar ic a c =
     (if a = c then True else if ic then a = toLowerChar c \<or> a = toUpperChar c else False)"

fun inItem :: "bool \<Rightarrow> char \<Rightarrow> citem \<Rightarrow> bool" where
  "inItem ic c (Single a) = sameChar ic a c"
| "inItem ic c (Range lo hi) =
     (if between (code lo) (code hi) c then True
      else if ic then between (code lo) (code hi) (toLowerChar c) \<or>
                      between (code lo) (code hi) (toUpperChar c)
      else False)"
| "inItem ic c EscD = isDigit c"
| "inItem ic c EscW = isWordChar c"
| "inItem ic c EscS = isWhiteSpace c"

definition inClass :: "bool \<Rightarrow> bool \<Rightarrow> citem list \<Rightarrow> char \<Rightarrow> bool" where
  "inClass ic neg items c = (list_ex (inItem ic c) items \<noteq> neg)"

text \<open>
  A matcher state is a position in the text, kept as the text before it (reversed) and
  the text from it on, with the captures made so far.
\<close>

datatype mstate = MState (bef: string) (rest: string) (caps: "(nat \<times> string) list")

fun groupsOf :: "regex \<Rightarrow> nat list" where
  "groupsOf (Seq r s) = groupsOf r @ groupsOf s"
| "groupsOf (Alt r s) = groupsOf r @ groupsOf s"
| "groupsOf (Rep mn mx g r) = groupsOf r"
| "groupsOf (Group k r) = k # groupsOf r"
| "groupsOf _ = []"

fun rsize :: "regex \<Rightarrow> nat" where
  "rsize (Seq r s) = Suc (rsize r + rsize s)"
| "rsize (Alt r s) = Suc (rsize r + rsize s)"
| "rsize (Rep mn mx g r) = Suc (rsize r)"
| "rsize (Group k r) = Suc (rsize r)"
| "rsize _ = 0"

fun rmin :: "regex \<Rightarrow> nat" where
  "rmin (Rep mn mx g r) = mn"
| "rmin _ = 0"

definition consume :: "(char \<Rightarrow> bool) \<Rightarrow> mstate \<Rightarrow> mstate list" where
  "consume p x = (case rest x of [] \<Rightarrow> []
                  | c # cs \<Rightarrow> if p c then [MState (c # bef x) cs (caps x)] else [])"

definition clearCaps :: "nat list \<Rightarrow> mstate \<Rightarrow> mstate" where
  "clearCaps ks x = MState (bef x) (rest x) (filter (\<lambda>kv. fst kv \<notin> set ks) (caps x))"

definition setCap :: "nat \<Rightarrow> mstate \<Rightarrow> mstate \<Rightarrow> mstate" where
  "setCap k x y = MState (bef y) (rest y)
     ((k, take (length (rest x) - length (rest y)) (rest x)) # filter (\<lambda>kv. fst kv \<noteq> k) (caps y))"

definition decr :: "nat option \<Rightarrow> nat option" where
  "decr mx = (case mx of None \<Rightarrow> None | Some n \<Rightarrow> Some (n - 1))"

text \<open>
  \<open>run ic r x\<close> lists the states in which a match of \<open>r\<close> started at \<open>x\<close> can end, in the
  order in which the backtracking matcher tries them: its head is the match the engine
  finds, and the empty list is failure. The quantifier follows the RepeatMatcher of the
  language definition: the captures of the body are cleared before each iteration, and
  once the minimum is reached an iteration that consumes nothing is rejected.
\<close>

function run :: "bool \<Rightarrow> regex \<Rightarrow> mstate \<Rightarrow> mstate list" where
  "run ic Eps x = [x]"
| "run ic (Lit a) x = consume (sameChar ic a) x"
| "run ic (Cls neg items) x = consume (inClass ic neg items) x"
| "run ic Dot x = consume (\<lambda>c. code c \<noteq> 10 \<and> code c \<noteq> 13) x"
| "run ic Bos x = (if bef x = [] then [x] else [])"
| "run ic Eos x = (if rest x = [] then [x] else [])"
| "run ic (NotBehind neg items) x =
     (case bef x of [] \<Rightarrow> [x] | c # cs \<Rightarrow> if inClass ic neg items c then [] else [x])"
| "run ic (Seq r s) x = concat (map (run ic s) (run ic r x))"
| "run ic (Alt r s) x = run ic r x @ run ic s x"
| "run ic (Group k r) x = map (setCap k x) (run ic r x)"
| "run ic (Rep mn mx g r) x =
     (if mx = Some 0 then [x]
      else let again = concat (map (\<lambda>y. if mn \<noteq> 0 \<or> length (rest y) < length (rest x)
                                          then run ic (Rep (mn - 1) (decr mx) g r) y else [])
                                   (run ic r (clearCaps (groupsOf r) x)))
           in if mn \<noteq> 0 then again else if g then again @ [x] else x # again)"
  by pat_completeness auto
termination
  by (relation "measures [\<lambda>(ic, r, x). rsize r, \<lambda>(ic, r, x). rmin r, \<lambda>(ic, r, x). length (rest x)]")
     auto

text \<open>A match: where it starts, the matched text, and the captured groups.\<close>

datatype rmatch = RMatch (mindex: nat) (whole: string) (groups: "(nat \<times> string) list")

definition group :: "rmatch \<Rightarrow> nat \<Rightarrow> string option" where
  "group m k = map_of (groups m) k"

text \<open>
  \<open>scan\<close> tries the pattern at the current position and then at each later one, up to
  and including the end of the text.
\<close>

fun scan :: "bool \<Rightarrow> regex \<Rightarrow> string \<Rightarrow> string \<Rightarrow> rmatch option" where
  "scan ic r b [] =
     (case run ic r (MState b [] []) of
        [] \<Rightarrow> None
      | y # ys \<Rightarrow> Some (RMatch (length b) [] (caps y)))"
| "scan ic r b (c # cs) =
     (case run ic r (MState b (c # cs) []) of
        [] \<Rightarrow> scan ic r (c # b) cs
      | y # ys \<Rightarrow> Some (RMatch (length b) (take (length (c # cs) - length (rest y)) (c # cs)) (caps y)))"

text \<open>
  \<open>rx.exec(text)\<close> of a global pattern whose \<open>lastIndex\<close> is \<open>li\<close>. After a match the
  pattern's \<open>lastIndex\<close> is \<open>lastIndexOf m\<close>; after a failure it is 0.
\<close>

definition exec :: "bool \<Rightarrow> regex \<Rightarrow> string \<Rightarrow> nat \<Rightarrow> rmatch option" where
  "exec ic r text li =
     (if length text < li then None else scan ic r (rev (take li text)) (drop li text))"

definition lastIndexOf :: "rmatch \<Rightarrow> nat" where
  "lastIndexOf m = mindex m + length (whole m)"

text \<open>\<open>text.match(rx)\<close> of a pattern without the \<open>g\<close> flag.\<close>

definition matchRx :: "bool \<Rightarrow> regex \<Rightarrow> string \<Rightarrow> rmatch option" where
  "matchRx ic r text = exec ic r text 0"

lemma scan_index: "scan ic r b s = Some m \<Longrightarrow> length b \<le> mindex m \<and> mindex m \<le> length b + length s"
proof (induction s arbitrary: b)
  case Nil
  then show ?case by (auto split: list.splits)
next
  case (Cons c cs)
  show ?case
  proof (cases "run ic r (MState b (c # cs) [])")
    case Nil
    with Cons.prems have "scan ic r (c # b) cs = Some m" by simp
    from Cons.IH [OF this] show ?thesis by simp
  next
    case (Cons y ys)
    with Cons.prems show ?thesis by auto
  qed
qed

lemma scan_whole: "scan ic r b s = Some m \<Longrightarrow> mindex m + length (whole m) \<le> length b + length s"
proof (induction s arbitrary: b)
  case Nil
  then show ?case by (auto split: list.splits)
next
  case (Cons c cs)
  show ?case
  proof (cases "run ic r (MState b (c # cs) [])")
    case Nil
    with Cons.prems have "scan ic r (c # b) cs = Some m" by simp
    from Cons.IH [OF this] show ?thesis by simp
  next
    case (Cons y ys)
    with Cons.prems show ?thesis by auto
  qed
qed

lemma exec_bounds:
  assumes "exec ic r text li = Some m"
  shows "li \<le> mindex m" and "lastIndexOf m \<le> length text" and "li \<le> length text"
proof -
  from assms have le: "li \<le> length text"
    and sc: "scan ic r (rev (take li text)) (drop li text) = Some m"
    by (auto simp: exec_def split: if_splits)
  from scan_index [OF sc] le show "li \<le> mindex m" by simp
  from scan_whole [OF sc] le show "lastIndexOf m \<le> length text" by (simp add: lastIndexOf_def)
  from le show "li \<le> length text" .
qed

text \<open>
  \<open>text.replace(rx, repl)\<close> for a global pattern and a replacement without \<open>$\<close>: every
  match is replaced; after an empty match the search resumes one code unit later.
\<close>

function replaceFrom :: "bool \<Rightarrow> regex \<Rightarrow> string \<Rightarrow> string \<Rightarrow> nat \<Rightarrow> string" where
  "replaceFrom ic r repl text li =
     (case exec ic r text li of
        None \<Rightarrow> drop li text
      | Some m \<Rightarrow>
          take (mindex m - li) (drop li text) @ repl @
          (if whole m = []
           then take 1 (drop (mindex m) text) @ replaceFrom ic r repl text (Suc (mindex m))
           else replaceFrom ic r repl text (lastIndexOf m)))"
  by pat_completeness auto
termination
proof (relation "measure (\<lambda>(ic, r, repl, text, li). Suc (length text) - li)")
  show "wf (measure (\<lambda>(ic, r, repl, text, li). Suc (length text) - li))" by simp
next
  fix ic r and repl t :: string and li m
  assume e: "exec ic r t li = Some m"
  from exec_bounds [OF e]
  show "((ic, r, repl, t, Suc (mindex m)), ic, r, repl, t, li)
          \<in> measure (\<lambda>(ic, r, repl, text, li). Suc (length text) - li)"
    by simp
next
  fix ic r and repl t :: string and li m
  assume e: "exec ic r t li = Some m" and ne: "whole m \<noteq> []"
  from exec_bounds [OF e] ne
  show "((ic, r, repl, t, lastIndexOf m), ic, r, repl, t, li)
          \<in> measure (\<lambda>(ic, r, repl, text, li). Suc (length text) - li)"
    by (cases "whole m") (simp_all add: lastIndexOf_def)
qed

definition replaceAll :: "bool \<Rightarrow> regex \<Rightarrow> string \<Rightarrow> string \<Rightarrow> string" where
  "replaceAll ic r repl text = replaceFrom ic r repl text 0"

text \<open>\<open>text.replace(rx, repl)\<close> for a pattern without the \<open>g\<close> flag: the first match only.\<close>

definition replaceFirst :: "bool \<Rightarrow> regex \<Rightarrow> string \<Rightarrow> string \<Rightarrow> string" where
  "replaceFirst ic r repl text =
     (case exec ic r text 0 of
        None \<Rightarrow> text
      | Some m \<Rightarrow> take (mindex m) text @ repl @ drop (lastIndexOf m) text)"

text \<open>
  \<open>text.split(rx)\<close> for a pattern without groups. \<open>cur\<close> is the piece being collected
  (reversed), \<open>b\<close> the text before the current position and \<open>s\<close> the text from it on. A
  match that ends where the current piece starts is skipped.
\<close>

function splitLoop :: "bool \<Rightarrow> regex \<Rightarrow> string \<Rightarrow> string \<Rightarrow> string \<Rightarrow> string list" where
  "splitLoop ic r b cur [] = [rev cur]"
| "splitLoop ic r b cur (c # cs) =
     (case run ic r (MState b (c # cs) []) of
        [] \<Rightarrow> splitLoop ic r (c # b) (c # cur) cs
      | y # ys \<Rightarrow>
          let k = length (c # cs) - length (rest y)
          in if k = 0 \<and> cur = [] then splitLoop ic r (c # b) (c # cur) cs
             else rev cur # splitLoop ic r (rev (take k (c # cs)) @ b) [] (drop k (c # cs)))"
  by pat_completeness auto
termination
  by (relation "measures [\<lambda>(ic, r, b, cur, s). length s, \<lambda>(ic, r, b, cur, s). length cur]")
     auto

definition splitRx :: "bool \<Rightarrow> regex \<Rightarrow> string \<Rightarrow> string list" where
  "splitRx ic r text =
     (if text = [] then (case run ic r (MState [] [] []) of [] \<Rightarrow> [[]] | y # ys \<Rightarrow> [])
      else splitLoop ic r [] [] text)"

text \<open>Pattern notation.\<close>

fun seqs :: "regex list \<Rightarrow> regex" where
  "seqs [] = Eps"
| "seqs [r] = r"
| "seqs (r # rs) = Seq r (seqs rs)"

fun alts :: "regex list \<Rightarrow> regex" where
  "alts [] = Cls False []"
| "alts [r] = r"
| "alts (r # rs) = Alt r (alts rs)"

definition many :: "regex \<Rightarrow> regex" where "many r = Rep 0 None True r"
definition many1 :: "regex \<Rightarrow> regex" where "many1 r = Rep 1 None True r"
definition opt :: "regex \<Rightarrow> regex" where "opt r = Rep 0 (Some 1) True r"
definition lazyMany :: "regex \<Rightarrow> regex" where "lazyMany r = Rep 0 None False r"
definition lazyMany1 :: "regex \<Rightarrow> regex" where "lazyMany1 r = Rep 1 None False r"
definition repeat :: "nat \<Rightarrow> nat \<Rightarrow> regex \<Rightarrow> regex" where "repeat m n r = Rep m (Some n) True r"

definition ws :: regex where "ws = Cls False [EscS]"
definition digit :: regex where "digit = Cls False [EscD]"
definition lit :: "string \<Rightarrow> regex" where "lit s = seqs (map Lit s)"

section \<open>Data model\<close>

record Citation =
  raw :: string
  caseName :: "string option"
  volume :: "string option"
  reporter :: string
  page :: "string option"
  year :: "string option"
  court :: "string option"
  startIndex :: nat
  endIndex :: nat

datatype status = verified | not_found | partial_match | format_error | api_error

record MatchedCase =
  caseName_m :: string
  citation_m :: string
  dateFiled :: string
  court_m :: string
  docketNumber :: "string option"

record VerificationResult =
  citation :: Citation
  status :: status
  confidence :: int
  details :: string
  courtListenerUrl :: "string option"
  matchedCase :: "MatchedCase option"
  warnings :: "string list"

record VerificationReport =
  documentName :: string
  totalCitations :: nat
  verified_r :: nat
  notFound :: nat
  partialMatches :: nat
  formatErrors :: nat
  apiErrors :: nat
  results_r :: "VerificationResult list"
  processedAt :: string

subsection \<open>The Reporter Table\<close>

definition FEDERAL_REPORTERS :: "(string \<times> string) list" where
  "FEDERAL_REPORTERS = [
    (''U.S.'', ''United States Reports''),
    (''S. Ct.'', ''Supreme Court Reporter''),
    (''L. Ed.'', ''Lawyers Edition''),
    (''L. Ed. 2d'', ''Lawyers Edition Second Series''),
    (''F.'', ''Federal Reporter''),
    (''F.2d'', ''Federal Reporter Second Series''),
    (''F.3d'', ''Federal Reporter Third Series''),
    (''F.4th'', ''Federal Reporter Fourth Series''),
    (''F. Supp.'', ''Federal Supplement''),
    (''F. Supp. 2d'', ''Federal Supplement Second Series''),
    (''F. Supp. 3d'', ''Federal Supplement Third Series''),
    (''F.R.D.'', ''Federal Rules Decisions''),
    (''B.R.'', ''Bankruptcy Reporter''),
    (''Fed. Cl.'', ''Federal Claims Reporter''),
    (''Vet. App.'', ''Veterans Appeals Reporter'')]"

definition STATE_REPORTERS :: "(string \<times> string) list" where
  "STATE_REPORTERS = [
    (''N.Y.'', ''New York Reports''),
    (''N.Y.2d'', ''New York Reports Second Series''),
    (''N.Y.3d'', ''New York Reports Third Series''),
    (''A.D.'', ''Appellate Division Reports''),
    (''A.D.2d'', ''Appellate Division Reports Second Series''),
    (''A.D.3d'', ''Appellate Division Reports Third Series''),
    (''Cal.'', ''California Reports''),
    (''Cal. 2d'', ''California Reports Second Series''),
    (''Cal. 3d'', ''California Reports Third Series''),
    (''Cal. 4th'', ''California Reports Fourth Series''),
    (''Cal. 5th'', ''California Reports Fifth Series''),
    (''Cal. App.'', ''California Appellate Reports''),
    (''Cal. App. 2d'', ''California Appellate Reports Second Series''),
    (''Cal. App. 3d'', ''California Appellate Reports Third Series''),
    (''Cal. App. 4th'', ''California Appellate Reports Fourth Series''),
    (''Cal. App. 5th'', ''California Appellate Reports Fifth Series''),
    (''Ill.'', ''Illinois Reports''),
    (''Ill. 2d'', ''Illinois Reports Second Series''),
    (''Ill. App.'', ''Illinois Appellate Court Reports''),
    (''Ill. App. 2d'', ''Illinois Appellate Court Reports Second Series''),
    (''Ill. App. 3d'', ''Illinois Appellate Court Reports Third Series''),
    (''Tex.'', ''Texas Reports''),
    (''Pa.'', ''Pennsylvania State Reports''),
    (''Ohio St.'', ''Ohio State Reports''),
    (''Ohio St. 2d'', ''Ohio State Reports Second Series''),
    (''Ohio St. 3d'', ''Ohio State Reports Third Series''),
    (''Mass.'', ''Massachusetts Reports''),
    (''N.J.'', ''New Jersey Reports''),
    (''Mich.'', ''Michigan Reports''),
    (''Minn.'', ''Minnesota Reports''),
    (''Wis.'', ''Wisconsin Reports''),
    (''Wis. 2d'', ''Wisconsin Reports Second Series'')]"

definition REGIONAL_REPORTERS :: "(string \<times> string) list" where
  "REGIONAL_REPORTERS = [
    (''A.'', ''Atlantic Reporter''),
    (''A.2d'', ''Atlantic Reporter Second Series''),
    (''A.3d'', ''Atlantic Reporter Third Series''),
    (''N.E.'', ''North Eastern Reporter''),
    (''N.E.2d'', ''North Eastern Reporter Second Series''),
    (''N.E.3d'', ''North Eastern Reporter Third Series''),
    (''N.W.'', ''North Western Reporter''),
    (''N.W.2d'', ''North Western Reporter Second Series''),
    (''P.'', ''Pacific Reporter''),
    (''P.2d'', ''Pacific Reporter Second Series''),
    (''P.3d'', ''Pacific Reporter Third Series''),
    (''S.E.'', ''South Eastern Reporter''),
    (''S.E.2d'', ''South Eastern Reporter Second Series''),
    (''S.W.'', ''South Western Reporter''),
    (''S.W.2d'', ''South Western Reporter Second Series''),
    (''S.W.3d'', ''South Western Reporter Third Series''),
    (''So.'', ''Southern Reporter''),
    (''So. 2d'', ''Southern Reporter Second Series''),
    (''So. 3d'', ''Southern Reporter Third Series'')]"

text \<open>The three tables have no key in common, so the spread is their concatenation.\<close>

definition ALL_REPORTERS :: "(string \<times> string) list" where
  "ALL_REPORTERS = FEDERAL_REPORTERS @ STATE_REPORTERS @ REGIONAL_REPORTERS"

lemma reporter_keys_distinct: "distinct (map fst ALL_REPORTERS)"
  by code_simp

text \<open>
  \<open>ALL_REPORTERS\<close> is an ordinary object, so \<open>ALL_REPORTERS[key]\<close> also finds the
  properties every object inherits from \<open>Object.prototype\<close>; each of them is truthy.
  \<open>lookupTruthy obj key\<close> is the truth value of \<open>obj[key]\<close>.
\<close>

definition objectPrototypeKeys :: "string list" where
  "objectPrototypeKeys =
     [''constructor'', ''__defineGetter__'', ''__defineSetter__'', ''hasOwnProperty'',
      ''__lookupGetter__'', ''__lookupSetter__'', ''isPrototypeOf'', ''propertyIsEnumerable'',
      ''toString'', ''valueOf'', ''__proto__'', ''toLocaleString'']"

definition lookupTruthy :: "(string \<times> string) list \<Rightarrow> string \<Rightarrow> bool" where
  "lookupTruthy obj k =
     (case map_of obj k of
        Some v \<Rightarrow> v \<noteq> []
      | None \<Rightarrow> k \<in> set objectPrototypeKeys)"

section \<open>Format validation (extractor.ts)\<close>

record Validation =
  valid :: bool
  issues :: "string list"

text \<open>
  \<open>outside lo hi n\<close> is \<open>n < lo || n > hi\<close> for the result \<open>n\<close> of \<open>parseInt\<close>: both
  comparisons are false for \<open>NaN\<close>.
\<close>

definition outside :: "int \<Rightarrow> int \<Rightarrow> int option \<Rightarrow> bool" where
  "outside lo hi n = (case n of None \<Rightarrow> False | Some v \<Rightarrow> v < lo \<or> v > hi)"

text \<open>\<open>currentYear\<close> is \<open>new Date().getFullYear()\<close>.\<close>

definition validateCitationFormat :: "int \<Rightarrow> Citation \<Rightarrow> Validation" where
  "validateCitationFormat currentYear c =
     (let volumeIssue =
            (if outside 1 2000 (parseInt (orElse (volume c) ''0''))
             then [''Unusual volume number: '' @ tmpl (volume c)] else []);
          pageIssue =
            (if outside 1 10000 (parseInt (orElse (page c) ''0''))
             then [''Unusual page number: '' @ tmpl (page c)] else []);
          yearIssue =
            (if truthy (year c) \<and> outside 1789 currentYear (parseInt (tmpl (year c)))
             then [''Year out of range: '' @ tmpl (year c)] else []);
          normalizedReporter = replaceAll False (many1 ws) '' '' (reporter c);
          reporterIssue =
            (if \<not> lookupTruthy ALL_REPORTERS normalizedReporter
             then [''Unknown reporter: '' @ reporter c] else []);
          issues = volumeIssue @ pageIssue @ yearIssue @ reporterIssue
      in \<lparr> valid = (length issues = 0), issues = issues \<rparr>)"

definition formatCitation :: "Citation \<Rightarrow> string" where
  "formatCitation c =
     (let namePart = (if truthy (caseName c) then [tmpl (caseName c) @ '',''] else []);
          corePart = [tmpl (volume c) @ '' '' @ reporter c @ '' '' @ tmpl (page c)];
          parens = (if truthy (court c) then [tmpl (court c)] else []) @
                   (if truthy (year c) then [tmpl (year c)] else []);
          parenPart = (if truthy (court c) \<or> truthy (year c)
                       then [''('' @ join '' '' parens @ '')''] else [])
      in join '' '' (namePart @ corePart @ parenPart))"

section \<open>Verification (verifier.ts)\<close>

record CourtListenerCase =
  id_cl :: int
  absolute_url :: string
  case_name :: string
  case_name_short :: string
  citation_cl :: "string list option"
  court_cl :: string
  court_id :: string
  date_filed :: string
  docket_number :: string
  judges :: string
  status_cl :: string

record SearchResponse =
  count :: int
  results :: "CourtListenerCase list"

text \<open>
  The lookup service is a parameter. A request is the list of the query parameters of
  its URL; \<open>fetch\<close> either throws or gives a response with its \<open>ok\<close> flag and the value
  of \<open>response.json()\<close> (\<open>None\<close> when parsing the body throws). The requests made are
  logged in order. The pause of the rate limiter before a request is not modelled.
\<close>

datatype fetchOutcome = Threw | Response bool "SearchResponse option"

type_synonym request = "(string \<times> string) list"
type_synonym service = "request \<Rightarrow> fetchOutcome"

definition vSplit :: regex where
  "vSplit = seqs [many1 ws, Lit CHR ''v'', opt (Lit CHR ''.''), many1 ws]"

definition citationStr :: "Citation \<Rightarrow> string" where
  "citationStr c = tmpl (volume c) @ '' '' @ reporter c @ '' '' @ tmpl (page c)"

definition buildSearchQuery :: "Citation \<Rightarrow> request" where
  "buildSearchQuery c =
     (''citation'', citationStr c) #
     (if truthy (caseName c)
      then [(''case_name'',
             trim (replaceFirst False (seqs [Lit CHR '','', many Dot, Eos]) []
                    (replaceFirst True vSplit '' v. '' (tmpl (caseName c)))))]
      else [])"

definition answer :: "fetchOutcome \<Rightarrow> SearchResponse option" where
  "answer out = (case out of Threw \<Rightarrow> None | Response ok body \<Rightarrow> if \<not> ok then None else body)"

definition searchByCitation :: "service \<Rightarrow> Citation \<Rightarrow> request list \<Rightarrow> SearchResponse option \<times> request list" where
  "searchByCitation fetch c log =
     (let req = buildSearchQuery c @ [(''type'', ''o'')]
      in (answer (fetch req), log @ [req]))"

definition searchByComponents :: "service \<Rightarrow> Citation \<Rightarrow> request list \<Rightarrow> SearchResponse option \<times> request list" where
  "searchByComponents fetch c log =
     (let req = [(''q'', citationStr c), (''type'', ''o'')]
      in (answer (fetch req), log @ [req]))"

text \<open>
  The three parts of \<open>calculateConfidence\<close>. The first is the loop over the candidate's
  citation strings, which stops at the first string that passes either test.
\<close>

fun citationStringScore :: "Citation \<Rightarrow> string list \<Rightarrow> int" where
  "citationStringScore c [] = 0"
| "citationStringScore c (resCite # others) =
     (if includesStr (toLowerCase resCite) (toLowerCase (citationStr c)) then 50
      else if includesStr resCite (orElse (volume c) []) \<and> includesStr resCite (orElse (page c) []) then 30
      else citationStringScore c others)"

definition caseNameScore :: "Citation \<Rightarrow> CourtListenerCase \<Rightarrow> int" where
  "caseNameScore c r =
     (if truthy (caseName c) \<and> case_name r \<noteq> []
      then let citeName = toLowerCase (tmpl (caseName c));
               resultName = toLowerCase (case_name r);
               citeParties = splitRx True vSplit citeName;
               partyMatches = length (filter
                  (\<lambda>party. let simplified = trim (replaceAll False (Cls True [EscW, EscS]) [] party)
                           in simplified \<noteq> [] \<and> includesStr resultName simplified)
                  citeParties)
           in if partyMatches \<ge> 2 then 30 else if partyMatches = 1 then 15 else 0
      else 0)"

definition yearScore :: "Citation \<Rightarrow> CourtListenerCase \<Rightarrow> int" where
  "yearScore c r =
     (if truthy (year c) \<and> date_filed r \<noteq> []
      then let resultYear = take 4 (date_filed r)
           in if tmpl (year c) = resultYear then 20
              else (case (parseInt (tmpl (year c)), parseInt resultYear) of
                      (Some a, Some b) \<Rightarrow> if \<bar>a - b\<bar> \<le> 1 then 10 else 0
                    | _ \<Rightarrow> 0)
      else 0)"

definition calculateConfidence :: "Citation \<Rightarrow> CourtListenerCase \<Rightarrow> int" where
  "calculateConfidence c r =
     min 100 (citationStringScore c (case citation_cl r of None \<Rightarrow> [] | Some cs \<Rightarrow> cs)
              + caseNameScore c r + yearScore c r)"

text \<open>The loop that keeps the first candidate of the highest confidence above 0.\<close>

definition pickBest :: "Citation \<Rightarrow> CourtListenerCase list \<Rightarrow> CourtListenerCase option \<times> int" where
  "pickBest c rs =
     foldl (\<lambda>(bestMatch, bestConfidence) r.
              let conf = calculateConfidence c r
              in if conf > bestConfidence then (Some r, conf) else (bestMatch, bestConfidence))
           (None, 0) rs"

definition parties :: "string \<Rightarrow> string list" where
  "parties name = map (\<lambda>p. trim (replaceAll False (Cls True [EscW]) [] p)) (splitRx True vSplit name)"

definition mismatchWarnings :: "Citation \<Rightarrow> CourtListenerCase \<Rightarrow> string list" where
  "mismatchWarnings c bestMatch =
     (if truthy (caseName c) \<and> case_name bestMatch \<noteq> []
      then let citeParties = parties (toLowerCase (tmpl (caseName c)));
               matchParties = parties (toLowerCase (case_name bestMatch));
               anyMatch = list_ex (\<lambda>cp. list_ex (\<lambda>mp. cp \<noteq> [] \<and> mp \<noteq> [] \<and>
                                     (includesStr cp mp \<or> includesStr mp cp)) matchParties) citeParties
           in if \<not> anyMatch
              then [''Case name mismatch: citation says '' @ [CHR 0x22] @ tmpl (caseName c) @ [CHR 0x22] @
                    '', database shows '' @ [CHR 0x22] @ case_name bestMatch @ [CHR 0x22]]
              else []
      else [])"

definition snapshot :: "CourtListenerCase \<Rightarrow> MatchedCase" where
  "snapshot bestMatch =
     \<lparr> caseName_m = case_name bestMatch,
       citation_m = (case citation_cl bestMatch of None \<Rightarrow> [] | Some cs \<Rightarrow> join '', '' cs),
       dateFiled = date_filed bestMatch,
       court_m = court_cl bestMatch,
       docketNumber = Some (docket_number bestMatch) \<rparr>"

text \<open>The last part of \<open>verifyCitation\<close>: the decision on the confidence of the best match.\<close>

definition classify :: "Citation \<Rightarrow> CourtListenerCase \<Rightarrow> int \<Rightarrow> string list \<Rightarrow> VerificationResult" where
  "classify c bestMatch bestConfidence wns =
     (if bestConfidence \<ge> 70 then
        \<lparr> citation = c, status = verified, confidence = bestConfidence,
          details = ''Citation verified. Found matching case in CourtListener database.'',
          courtListenerUrl = Some (''https://www.courtlistener.com'' @ absolute_url bestMatch),
          matchedCase = Some (snapshot bestMatch),
          warnings = wns \<rparr>
      else if bestConfidence \<ge> 40 then
        \<lparr> citation = c, status = partial_match, confidence = bestConfidence,
          details = ''Possible match found, but confidence is low. Manual verification recommended.'',
          courtListenerUrl = Some (''https://www.courtlistener.com'' @ absolute_url bestMatch),
          matchedCase = Some (snapshot bestMatch),
          warnings = wns @ [''Low confidence match - verify manually''] \<rparr>
      else
        \<lparr> citation = c, status = not_found, confidence = bestConfidence,
          details = ''Found potential result '' @ [CHR 0x22] @ case_name bestMatch @ [CHR 0x22] @
                    '' but match confidence is too low.'',
          courtListenerUrl = None,
          matchedCase = None,
          warnings = wns @ [''Very low confidence - likely not a match''] \<rparr>)"

text \<open>
  \<open>lookup\<close> is the search with its fallback: the free-text query is sent when the first
  query failed or counted no result, and its answer replaces the first one.
\<close>

definition lookup :: "service \<Rightarrow> Citation \<Rightarrow> SearchResponse option \<times> request list" where
  "lookup fetch c =
     (let (first, log1) = searchByCitation fetch c []
      in if (case first of None \<Rightarrow> True | Some r \<Rightarrow> count r = 0)
         then searchByComponents fetch c log1
         else (first, log1))"

text \<open>\<open>verifyCitation\<close> returns its result and the requests it has made.\<close>

definition verifyCitation :: "service \<Rightarrow> int \<Rightarrow> Citation \<Rightarrow> VerificationResult \<times> request list" where
  "verifyCitation fetch currentYear c =
     (let formatValidation = validateCitationFormat currentYear c
      in if \<not> valid formatValidation then
           (\<lparr> citation = c, status = format_error, confidence = 0,
              details = ''Citation format issues: '' @ join ''; '' (issues formatValidation),
              courtListenerUrl = None, matchedCase = None,
              warnings = issues formatValidation \<rparr>, [])
         else
           (case lookup fetch c of
              (None, log) \<Rightarrow>
                (\<lparr> citation = c, status = api_error, confidence = 0,
                   details = ''Failed to query CourtListener API. Check your connection or try again later.'',
                   courtListenerUrl = None, matchedCase = None,
                   warnings = [''API request failed''] \<rparr>, log)
            | (Some searchResult, log) \<Rightarrow>
                if count searchResult = 0 then
                  (\<lparr> citation = c, status = not_found, confidence = 0,
                     details = ''No matching case found for '' @ [CHR 0x22] @ formatCitation c @ [CHR 0x22] @
                       ''. This citation may be fabricated, from a state court not in CourtListener, or use a different citation format.'',
                     courtListenerUrl = None, matchedCase = None,
                     warnings = [''No matching case in database''] \<rparr>, log)
                else
                  (case pickBest c (results searchResult) of
                     (None, bestConfidence) \<Rightarrow>
                       (\<lparr> citation = c, status = not_found, confidence = 0,
                          details = ''Search returned results but none matched the citation.'',
                          courtListenerUrl = None, matchedCase = None,
                          warnings = [''No confident match found''] \<rparr>, log)
                   | (Some bestMatch, bestConfidence) \<Rightarrow>
                       (classify c bestMatch bestConfidence (mismatchWarnings c bestMatch), log))))"

section \<open>Report (report.ts)\<close>

definition countStatus :: "status \<Rightarrow> VerificationResult list \<Rightarrow> nat" where
  "countStatus s rs = length (filter (\<lambda>r. status r = s) rs)"

definition generateReport :: "string \<Rightarrow> VerificationResult list \<Rightarrow> string \<Rightarrow> VerificationReport" where
  "generateReport name rs now =
     \<lparr> documentName = name,
       totalCitations = length rs,
       verified_r = countStatus verified rs,
       notFound = countStatus not_found rs,
       partialMatches = countStatus partial_match rs,
       formatErrors = countStatus format_error rs,
       apiErrors = countStatus api_error rs,
       results_r = rs,
       processedAt = now \<rparr>"

section \<open>Citation extraction (extractor.ts)\<close>

subsection \<open>The patterns\<close>

text \<open>
  A reporter name as pattern source: \<open>.\<close> is escaped and each white space becomes \<open>\s*\<close>.
  The names are sorted by length, longest first (the sort is stable), and joined by \<open>|\<close>.
\<close>

fun escapeReporter :: "string \<Rightarrow> regex list" where
  "escapeReporter [] = []"
| "escapeReporter (c # cs) =
     (if isWhiteSpace c then many ws else Lit c) # escapeReporter cs"

definition reporterNames :: "regex list" where
  "reporterNames =
     map (\<lambda>r. seqs (escapeReporter r))
       (sort_key (\<lambda>r. - int (length r)) (map fst ALL_REPORTERS))"

definition REPORTER_PATTERN :: regex where
  "REPORTER_PATTERN = alts reporterNames"

text \<open>\<open>[\w.'\-]\<close> and \<open>[\w\s,'\-]\<close>\<close>

definition nameChars :: "citem list" where
  "nameChars = [EscW, Single CHR ''.'', Single (CHR 0x27), Single CHR ''-'']"

definition tailChars :: "citem list" where
  "tailChars = [EscW, EscS, Single CHR '','', Single (CHR 0x27), Single CHR ''-'']"

text \<open>\<open>[A-Z][\w.'\-]+\<close>\<close>

definition partyName :: regex where
  "partyName = Seq (Cls False [Range CHR ''A'' CHR ''Z'']) (many1 (Cls False nameChars))"

text \<open>\<open>v\.?\<close> and \<open>(?:v\.?|vs\.?)\<close>\<close>

definition vDot :: regex where
  "vDot = Seq (Lit CHR ''v'') (opt (Lit CHR ''.''))"

definition vSep :: regex where
  "vSep = Alt vDot (seqs [Lit CHR ''v'', Lit CHR ''s'', opt (Lit CHR ''.'')])"

text \<open>
  The part both citation patterns share, with its groups numbered from \<open>k + 1\<close>: volume,
  reporter, page, the optional pinpoint and the optional parenthetical of court and year.
\<close>

definition citationTail :: "nat \<Rightarrow> regex list" where
  "citationTail k =
    [Group (k + 1) (repeat 1 4 digit), many ws,
     Group (k + 2) REPORTER_PATTERN, many ws,
     Group (k + 3) (repeat 1 5 digit),
     opt (seqs [many ws, Lit CHR '','', many ws, Group (k + 4) (repeat 1 5 digit)]),
     opt (seqs [many ws, Lit CHR ''('', Group (k + 5) (lazyMany1 (Cls True [Single CHR '')''])),
                many ws, Group (k + 6) (repeat 4 4 digit), Lit CHR '')''])]"

definition fullCitation :: regex where
  "fullCitation = seqs (
     [Group 1 (seqs [partyName, many1 ws, vSep, many1 ws, partyName, lazyMany (Cls False tailChars)]),
      opt (Lit CHR '',''), many ws] @ citationTail 1)"

definition shortCitation :: regex where
  "shortCitation = seqs (NotBehind False [EscW] # citationTail 0)"

text \<open>The three patterns of \<open>extractPrecedingCaseName\<close>.\<close>

definition namePair :: "regex list" where
  "namePair = [partyName, many1 ws, vDot, many1 ws, partyName]"

definition precedingPatterns :: "regex list" where
  "precedingPatterns =
     [seqs [Group 1 (seqs (namePair @ [lazyMany (Cls False tailChars)])),
            many ws, opt (Lit CHR '',''), many ws, Eos],
      seqs [lit ''See'', many1 ws, Group 1 (seqs namePair)],
      seqs [lit ''in'', many1 ws, Group 1 (seqs namePair)]]"

subsection \<open>The helpers\<close>

definition cleanCaseName :: "string option \<Rightarrow> string option" where
  "cleanCaseName name =
     (if \<not> truthy name then None
      else Some (trim
             (replaceFirst False (seqs [Bos, many ws, Lit CHR '','']) []
               (replaceFirst False (seqs [Lit CHR '','', many ws, Eos]) []
                 (replaceAll False (many1 ws) '' '' (tmpl name))))))"

definition normalizeReporter :: "string \<Rightarrow> string" where
  "normalizeReporter r = trim (replaceAll False (many1 ws) '' '' r)"

definition normalizeWhitespace :: "string \<Rightarrow> string" where
  "normalizeWhitespace s = toLowerCase (trim (replaceAll False (many1 ws) '' '' s))"

fun firstMatch :: "regex list \<Rightarrow> string \<Rightarrow> rmatch option" where
  "firstMatch [] text = None"
| "firstMatch (p # ps) text =
     (case matchRx True p text of None \<Rightarrow> firstMatch ps text | Some m \<Rightarrow> Some m)"

definition extractPrecedingCaseName :: "string \<Rightarrow> string option" where
  "extractPrecedingCaseName text =
     (case firstMatch precedingPatterns text of
        None \<Rightarrow> None
      | Some m \<Rightarrow> cleanCaseName (group m 1))"

subsection \<open>A match never is empty\<close>

fun minlen :: "regex \<Rightarrow> nat" where
  "minlen (Lit a) = 1"
| "minlen (Cls neg items) = 1"
| "minlen Dot = 1"
| "minlen (Seq r s) = minlen r + minlen s"
| "minlen (Alt r s) = min (minlen r) (minlen s)"
| "minlen (Rep mn mx g r) = (if mn = 0 \<or> mx = Some 0 then 0 else minlen r)"
| "minlen (Group k r) = minlen r"
| "minlen _ = 0"

text \<open>The equation of the quantifier is recursive: it is unfolded by hand only.\<close>

declare run.simps(11) [simp del]


lemma consume_rest: "y \<in> set (consume p x) \<Longrightarrow> Suc (length (rest y)) \<le> length (rest x)"
  by (cases x) (auto simp: consume_def split: list.splits if_splits)

lemma run_rest: "y \<in> set (run ic r x) \<Longrightarrow> length (rest y) + minlen r \<le> length (rest x)"
proof (induction ic r x arbitrary: y rule: run.induct)
  case (8 ic r s x)
  from "8.prems" obtain z where z: "z \<in> set (run ic r x)" and y: "y \<in> set (run ic s z)" by auto
  from "8.IH"(1) [OF z] "8.IH"(2) [OF z y] show ?case by simp
next
  case (11 ic mn mx g r x)
  let ?x' = "clearCaps (groupsOf r) x"
  let ?f = "\<lambda>z. if mn \<noteq> 0 \<or> length (rest z) < length (rest x)
                 then run ic (Rep (mn - 1) (decr mx) g r) z else []"
  let ?again = "concat (map ?f (run ic r ?x'))"
  have eq: "run ic (Rep mn mx g r) x =
      (if mx = Some 0 then [x]
       else if mn \<noteq> 0 then ?again else if g then ?again @ [x] else x # ?again)"
    by (subst run.simps(11)) (simp only: Let_def)
  show ?case
  proof (cases "mx = Some 0")
    case True
    with "11.prems" eq have "y = x" by simp
    with True show ?thesis by simp
  next
    case False
    have cl: "rest ?x' = rest x" by (simp add: clearCaps_def)
    show ?thesis
    proof (cases "y \<in> set ?again")
      case True
      then obtain z where z: "z \<in> set (run ic r ?x')" and yz: "y \<in> set (?f z)"
        by (simp only: set_concat set_map) blast
      have c: "mn \<noteq> 0 \<or> length (rest z) < length (rest x)"
      proof (rule ccontr)
        assume "\<not> (mn \<noteq> 0 \<or> length (rest z) < length (rest x))"
        then have "?f z = []" by (simp only: if_False)
        with yz show False by simp
      qed
      then have "?f z = run ic (Rep (mn - 1) (decr mx) g r) z" by (simp only: if_True)
      with yz have y: "y \<in> set (run ic (Rep (mn - 1) (decr mx) g r) z)" by simp
      from "11.IH"(1) [OF False z] cl have a: "length (rest z) + minlen r \<le> length (rest x)" by simp
      from "11.IH"(2) [OF False z c y] have b: "length (rest y) \<le> length (rest z)" by arith
      from a b show ?thesis by simp
    next
      case nin: False
      from "11.prems" have "y \<in> set (if mx = Some 0 then [x]
         else if mn \<noteq> 0 then ?again else if g then ?again @ [x] else x # ?again)"
        by (simp only: eq)
      with False nin have "y = x \<and> mn = 0"
        by (cases "mn = 0"; cases g) simp_all
      then show ?thesis by simp
    qed
  qed
next
  case (1 ic x)
  then show ?case by simp
next
  case (2 ic a x)
  then show ?case using consume_rest [of y "sameChar ic a" x] by simp
next
  case (3 ic neg items x)
  then show ?case using consume_rest [of y "inClass ic neg items" x] by simp
next
  case (4 ic x)
  then show ?case using consume_rest [of y "\<lambda>c. code c \<noteq> 10 \<and> code c \<noteq> 13" x] by simp
next
  case (5 ic x)
  then show ?case by (simp split: if_splits)
next
  case (6 ic x)
  then show ?case by (simp split: if_splits)
next
  case (7 ic neg items x)
  then show ?case by (simp split: list.splits if_splits)
next
  case (9 ic r s x)
  from "9.prems" have "y \<in> set (run ic r x) \<or> y \<in> set (run ic s x)" by simp
  then show ?case using "9.IH"(1) [of y] "9.IH"(2) [of y] by auto
next
  case (10 ic k r x)
  from "10.prems" obtain z where z: "z \<in> set (run ic r x)" and y: "y = setCap k x z" by auto
  from "10.IH" [OF z] y show ?case by (simp add: setCap_def)
qed

text \<open>
  By \<open>run_rest\<close> a match never ends before it starts: the test of the quantifier, that
  an iteration has left less text, says that the iteration has consumed something.
\<close>

lemma scan_minlen: "scan ic r b s = Some m \<Longrightarrow> minlen r \<le> length (whole m)"
proof (induction s arbitrary: b)
  case Nil
  then obtain y ys where "run ic r (MState b [] []) = y # ys" and "whole m = []"
    by (auto split: list.splits)
  with run_rest [of y ic r "MState b [] []"] show ?case by simp
next
  case (Cons c cs)
  show ?case
  proof (cases "run ic r (MState b (c # cs) [])")
    case Nil
    with Cons.prems have "scan ic r (c # b) cs = Some m" by simp
    from Cons.IH [OF this] show ?thesis .
  next
    case (Cons y ys)
    with Cons.prems have w: "whole m = take (length (c # cs) - length (rest y)) (c # cs)" by auto
    from Cons run_rest [of y ic r "MState b (c # cs) []"]
    have "length (rest y) + minlen r \<le> length (c # cs)" by simp
    with w show ?thesis by simp
  qed
qed

lemma exec_progress:
  assumes "exec ic r text li = Some m" and "0 < minlen r"
  shows "li < lastIndexOf m"
proof -
  from assms(1) have "scan ic r (rev (take li text)) (drop li text) = Some m"
    by (auto simp: exec_def split: if_splits)
  from scan_minlen [OF this] assms(2) have "0 < length (whole m)" by arith
  with exec_bounds(1) [OF assms(1)] show ?thesis by (cases "whole m") (simp_all add: lastIndexOf_def)
qed

lemma minlen_fullCitation: "0 < minlen fullCitation"
  by code_simp

lemma minlen_shortCitation: "0 < minlen shortCitation"
  by code_simp

subsection \<open>The reporter group is set in every match\<close>

text \<open>
  A match leaves the captures of groups outside the pattern as they were, and a group
  that is followed only by patterns without that group is set at the end. So the reporter
  group of either citation pattern is set in every match.
\<close>

lemma map_of_filter_other:
  "P k \<Longrightarrow> map_of (filter (\<lambda>kv. P (fst kv)) xs) k = map_of xs k"
  by (induction xs) auto

lemma consume_caps: "y \<in> set (consume p x) \<Longrightarrow> caps y = caps x"
  by (cases x) (auto simp: consume_def split: list.splits if_splits)

lemma run_caps_outside:
  "y \<in> set (run ic r x) \<Longrightarrow> k \<notin> set (groupsOf r) \<Longrightarrow> map_of (caps y) k = map_of (caps x) k"
proof (induction ic r x arbitrary: y rule: run.induct)
  case (8 ic r s x)
  from "8.prems"(1) obtain z where z: "z \<in> set (run ic r x)" and y: "y \<in> set (run ic s z)" by auto
  from "8.prems"(2) have kr: "k \<notin> set (groupsOf r)" and ks: "k \<notin> set (groupsOf s)" by simp_all
  from "8.IH"(1) [OF z kr] "8.IH"(2) [OF z y ks] show ?case by simp
next
  case (9 ic r s x)
  from "9.prems"(1) have "y \<in> set (run ic r x) \<or> y \<in> set (run ic s x)" by simp
  with "9.prems"(2) "9.IH"(1) [of y] "9.IH"(2) [of y] show ?case by auto
next
  case (10 ic j r x)
  from "10.prems"(1) obtain z where z: "z \<in> set (run ic r x)" and y: "y = setCap j x z" by auto
  from "10.prems"(2) have kj: "k \<noteq> j" and kr: "k \<notin> set (groupsOf r)" by simp_all
  from y kj have "map_of (caps y) k = map_of (caps z) k"
    using map_of_filter_other [of "\<lambda>i. i \<noteq> j" k "caps z"] by (simp add: setCap_def)
  with "10.IH" [OF z kr] show ?case by simp
next
  case (11 ic mn mx g r x)
  let ?x' = "clearCaps (groupsOf r) x"
  let ?f = "\<lambda>z. if mn \<noteq> 0 \<or> length (rest z) < length (rest x)
                 then run ic (Rep (mn - 1) (decr mx) g r) z else []"
  let ?again = "concat (map ?f (run ic r ?x'))"
  have eq: "run ic (Rep mn mx g r) x =
      (if mx = Some 0 then [x]
       else if mn \<noteq> 0 then ?again else if g then ?again @ [x] else x # ?again)"
    by (subst run.simps(11)) (simp only: Let_def)
  from "11.prems"(2) have kr: "k \<notin> set (groupsOf r)" by simp
  show ?case
  proof (cases "mx = Some 0")
    case True
    with "11.prems"(1) eq have "y = x" by simp
    then show ?thesis by simp
  next
    case False
    from kr have cl: "map_of (caps ?x') k = map_of (caps x) k"
      using map_of_filter_other [of "\<lambda>i. i \<notin> set (groupsOf r)" k "caps x"]
      by (simp add: clearCaps_def)
    show ?thesis
    proof (cases "y \<in> set ?again")
      case True
      then obtain z where z: "z \<in> set (run ic r ?x')" and yz: "y \<in> set (?f z)"
        by (simp only: set_concat set_map) blast
      have c: "mn \<noteq> 0 \<or> length (rest z) < length (rest x)"
      proof (rule ccontr)
        assume "\<not> (mn \<noteq> 0 \<or> length (rest z) < length (rest x))"
        then have "?f z = []" by (simp only: if_False)
        with yz show False by simp
      qed
      then have "?f z = run ic (Rep (mn - 1) (decr mx) g r) z" by (simp only: if_True)
      with yz have y: "y \<in> set (run ic (Rep (mn - 1) (decr mx) g r) z)" by simp
      from "11.prems"(2) have k': "k \<notin> set (groupsOf (Rep (mn - 1) (decr mx) g r))" by simp
      from "11.IH"(1) [OF False z kr] "11.IH"(2) [OF False z c y k'] cl show ?thesis by simp
    next
      case nin: False
      from "11.prems"(1) have "y \<in> set (if mx = Some 0 then [x]
         else if mn \<noteq> 0 then ?again else if g then ?again @ [x] else x # ?again)"
        by (simp only: eq)
      with False nin have "y = x"
        by (cases "mn = 0"; cases g) simp_all
      then show ?thesis by simp
    qed
  qed
next
  case (1 ic x)
  then show ?case by simp
next
  case (2 ic a x)
  then show ?case using consume_caps [of y "sameChar ic a" x] by simp
next
  case (3 ic neg items x)
  then show ?case using consume_caps [of y "inClass ic neg items" x] by simp
next
  case (4 ic x)
  then show ?case using consume_caps [of y "\<lambda>c. code c \<noteq> 10 \<and> code c \<noteq> 13" x] by simp
next
  case (5 ic x)
  then show ?case by (simp split: if_splits)
next
  case (6 ic x)
  then show ?case by (simp split: if_splits)
next
  case (7 ic neg items x)
  then show ?case by (simp split: list.splits if_splits)
qed

lemma run_group_set:
  assumes "y \<in> set (run ic (Seq (Group k r) s) x)" and "k \<notin> set (groupsOf s)"
  shows "map_of (caps y) k \<noteq> None"
proof -
  from assms(1) obtain z w where w: "w \<in> set (run ic r x)" and z: "z = setCap k x w"
    and y: "y \<in> set (run ic s z)" by auto
  from z have "map_of (caps z) k \<noteq> None" by (simp add: setCap_def)
  with run_caps_outside [OF y assms(2)] show ?thesis by simp
qed

lemma run_SeqE:
  assumes "y \<in> set (run ic (Seq r s) x)"
  obtains z where "z \<in> set (run ic r x)" and "y \<in> set (run ic s z)"
  using assms by auto

lemma tail_reporter_set:
  assumes "y \<in> set (run ic (seqs (citationTail k)) x)"
  shows "map_of (caps y) (k + 2) \<noteq> None"
proof -
  let ?rest = "seqs [many ws, Group (k + 3) (repeat 1 5 digit),
     opt (seqs [many ws, Lit CHR '','', many ws, Group (k + 4) (repeat 1 5 digit)]),
     opt (seqs [many ws, Lit CHR ''('', Group (k + 5) (lazyMany1 (Cls True [Single CHR '')''])),
                many ws, Group (k + 6) (repeat 4 4 digit), Lit CHR '')''])]"
  have shape: "seqs (citationTail k) =
     Seq (Group (k + 1) (repeat 1 4 digit)) (Seq (many ws) (Seq (Group (k + 2) REPORTER_PATTERN) ?rest))"
    by (simp add: citationTail_def)
  have out: "k + 2 \<notin> set (groupsOf ?rest)"
    by (simp add: many_def opt_def repeat_def lazyMany1_def digit_def ws_def)
  from assms obtain z1 where "y \<in> set (run ic (Seq (many ws) (Seq (Group (k + 2) REPORTER_PATTERN) ?rest)) z1)"
    unfolding shape by (rule run_SeqE)
  then obtain z2 where "y \<in> set (run ic (Seq (Group (k + 2) REPORTER_PATTERN) ?rest) z2)"
    by (rule run_SeqE)
  from run_group_set [OF this out] show ?thesis .
qed

lemma scan_caps:
  "scan ic r b s = Some m \<Longrightarrow> \<exists>x y. y \<in> set (run ic r x) \<and> groups m = caps y"
proof (induction s arbitrary: b)
  case Nil
  then obtain y ys where r: "run ic r (MState b [] []) = y # ys" and g: "groups m = caps y"
    by (auto split: list.splits)
  from r have "y \<in> set (run ic r (MState b [] []))" by simp
  with g show ?case by blast
next
  case (Cons c cs)
  show ?case
  proof (cases "run ic r (MState b (c # cs) [])")
    case Nil
    with Cons.prems have "scan ic r (c # b) cs = Some m" by simp
    from Cons.IH [OF this] show ?thesis .
  next
    case (Cons y ys)
    with Cons.prems have "groups m = caps y" by auto
    moreover from Cons have "y \<in> set (run ic r (MState b (c # cs) []))" by simp
    ultimately show ?thesis by blast
  qed
qed

lemma short_reporter_set:
  assumes "exec True shortCitation text li = Some m"
  shows "group m 2 \<noteq> None"
proof -
  from assms have "scan True shortCitation (rev (take li text)) (drop li text) = Some m"
    by (auto simp: exec_def split: if_splits)
  from scan_caps [OF this] obtain x y where y: "y \<in> set (run True shortCitation x)"
    and g: "groups m = caps y" by blast
  have eq: "shortCitation = Seq (NotBehind False [EscW]) (seqs (citationTail 0))"
    by (simp add: shortCitation_def citationTail_def)
  from y [unfolded eq] obtain z where "y \<in> set (run True (seqs (citationTail 0)) z)"
    by (rule run_SeqE)
  from tail_reporter_set [OF this] g show ?thesis by (simp add: group_def eval_nat_numeral)
qed

lemma full_reporter_set:
  assumes "exec True fullCitation text li = Some m"
  shows "group m 3 \<noteq> None"
proof -
  from assms have "scan True fullCitation (rev (take li text)) (drop li text) = Some m"
    by (auto simp: exec_def split: if_splits)
  from scan_caps [OF this] obtain x y where y: "y \<in> set (run True fullCitation x)"
    and g: "groups m = caps y" by blast
  let ?g1 = "Group 1 (seqs [partyName, many1 ws, vSep, many1 ws, partyName, lazyMany (Cls False tailChars)])"
  have eq: "fullCitation = Seq ?g1 (Seq (opt (Lit CHR '','')) (Seq (many ws) (seqs (citationTail 1))))"
    by (simp add: fullCitation_def citationTail_def)
  from y [unfolded eq] obtain z1 where "y \<in> set (run True (Seq (opt (Lit CHR '','')) (Seq (many ws) (seqs (citationTail 1)))) z1)"
    by (rule run_SeqE)
  then obtain z2 where "y \<in> set (run True (Seq (many ws) (seqs (citationTail 1))) z2)"
    by (rule run_SeqE)
  then obtain z3 where "y \<in> set (run True (seqs (citationTail 1)) z3)"
    by (rule run_SeqE)
  from tail_reporter_set [OF this] g show ?thesis by (simp add: group_def eval_nat_numeral)
qed

subsection \<open>The two passes\<close>

text \<open>
  \<open>groupText\<close> reads a group that is set. It is applied to the reporter group, where the
  program calls \<open>normalizeReporter\<close> (an unset group would be a TypeError there): by
  \<open>full_reporter_set\<close> and \<open>short_reporter_set\<close> the group is set in every match.
\<close>

definition groupText :: "rmatch \<Rightarrow> nat \<Rightarrow> string" where
  "groupText m k = (case group m k of None \<Rightarrow> [] | Some s \<Rightarrow> s)"

text \<open>The Citation record each pass builds from a match.\<close>

definition fullRecord :: "rmatch \<Rightarrow> Citation" where
  "fullRecord m =
     \<lparr> raw = trim (whole m),
       caseName = cleanCaseName (group m 1),
       volume = group m 2,
       reporter = normalizeReporter (groupText m 3),
       page = group m 4,
       year = group m 7,
       court = map_option trim (group m 6),
       startIndex = mindex m,
       endIndex = mindex m + length (trim (whole m)) \<rparr>"

definition shortRecord :: "string \<Rightarrow> rmatch \<Rightarrow> Citation" where
  "shortRecord text m =
     \<lparr> raw = trim (whole m),
       caseName = extractPrecedingCaseName (drop (mindex m - 200) (take (mindex m) text)),
       volume = group m 1,
       reporter = normalizeReporter (groupText m 2),
       page = group m 3,
       year = group m 6,
       court = map_option trim (group m 5),
       startIndex = mindex m,
       endIndex = mindex m + length (trim (whole m)) \<rparr>"

text \<open>
  The first \<open>while\<close> loop: \<open>li\<close> is the \<open>lastIndex\<close> of the pattern, \<open>citations\<close> and
  \<open>seen\<close> the array and the set the loop fills.
\<close>

function fullLoop :: "string \<Rightarrow> nat \<Rightarrow> Citation list \<Rightarrow> string set \<Rightarrow> Citation list \<times> string set" where
  "fullLoop text li citations seen =
     (case exec True fullCitation text li of
        None \<Rightarrow> (citations, seen)
      | Some m \<Rightarrow>
          if normalizeWhitespace (trim (whole m)) \<in> seen
          then fullLoop text (lastIndexOf m) citations seen
          else fullLoop text (lastIndexOf m) (citations @ [fullRecord m])
                 (insert (normalizeWhitespace (trim (whole m))) seen))"
  by pat_completeness auto
termination
proof (relation "measure (\<lambda>(text, li, citations, seen). length text - li)")
  show "wf (measure (\<lambda>(text, li, citations, seen). length text - li))" by simp
next
  fix t :: string and li :: nat and citations :: "Citation list" and seen :: "string set" and m
  assume e: "exec True fullCitation t li = Some m"
  from exec_progress [OF e minlen_fullCitation] exec_bounds(2) [OF e]
  show "((t, lastIndexOf m, citations, seen), t, li, citations, seen)
          \<in> measure (\<lambda>(text, li, citations, seen). length text - li)"
    by simp
next
  fix t :: string and li :: nat and citations :: "Citation list" and seen :: "string set" and m
  assume e: "exec True fullCitation t li = Some m"
  from exec_progress [OF e minlen_fullCitation] exec_bounds(2) [OF e]
  show "((t, lastIndexOf m, citations @ [fullRecord m], insert (normalizeWhitespace (trim (whole m))) seen),
         t, li, citations, seen)
          \<in> measure (\<lambda>(text, li, citations, seen). length text - li)"
    by simp
qed

declare fullLoop.simps [simp del]

text \<open>The second \<open>while\<close> loop.\<close>

function shortLoop :: "string \<Rightarrow> nat \<Rightarrow> Citation list \<Rightarrow> string set \<Rightarrow> Citation list \<times> string set" where
  "shortLoop text li citations seen =
     (case exec True shortCitation text li of
        None \<Rightarrow> (citations, seen)
      | Some m \<Rightarrow>
          if normalizeWhitespace (trim (whole m)) \<in> seen
          then shortLoop text (lastIndexOf m) citations seen
          else if list_ex (\<lambda>c. startIndex c \<le> mindex m \<and> mindex m < endIndex c) citations
          then shortLoop text (lastIndexOf m) citations seen
          else shortLoop text (lastIndexOf m) (citations @ [shortRecord text m])
                 (insert (normalizeWhitespace (trim (whole m))) seen))"
  by pat_completeness auto
termination
proof (relation "measure (\<lambda>(text, li, citations, seen). length text - li)")
  show "wf (measure (\<lambda>(text, li, citations, seen). length text - li))" by simp
next
  fix t :: string and li :: nat and citations :: "Citation list" and seen :: "string set" and m
  assume e: "exec True shortCitation t li = Some m"
  from exec_progress [OF e minlen_shortCitation] exec_bounds(2) [OF e]
  show "((t, lastIndexOf m, citations, seen), t, li, citations, seen)
          \<in> measure (\<lambda>(text, li, citations, seen). length text - li)"
    by simp
next
  fix t :: string and li :: nat and citations :: "Citation list" and seen :: "string set" and m
  assume e: "exec True shortCitation t li = Some m"
  from exec_progress [OF e minlen_shortCitation] exec_bounds(2) [OF e]
  show "((t, lastIndexOf m, citations, seen), t, li, citations, seen)
          \<in> measure (\<lambda>(text, li, citations, seen). length text - li)"
    by simp
next
  fix t :: string and li :: nat and citations :: "Citation list" and seen :: "string set" and m
  assume e: "exec True shortCitation t li = Some m"
  from exec_progress [OF e minlen_shortCitation] exec_bounds(2) [OF e]
  show "((t, lastIndexOf m, citations @ [shortRecord t m], insert (normalizeWhitespace (trim (whole m))) seen),
         t, li, citations, seen)
          \<in> measure (\<lambda>(text, li, citations, seen). length text - li)"
    by simp
qed

declare shortLoop.simps [simp del]

text \<open>
  The state after the first and after the second pass, the citations each pass has
  added, and \<open>extractCitations\<close>: the citations of both passes, sorted by start (the sort
  is stable).
\<close>

definition fullPass :: "string \<Rightarrow> Citation list \<times> string set" where
  "fullPass text = fullLoop text 0 [] {}"

definition shortPass :: "string \<Rightarrow> Citation list \<times> string set" where
  "shortPass text = shortLoop text 0 (fst (fullPass text)) (snd (fullPass text))"

definition extractCitations :: "string \<Rightarrow> Citation list" where
  "extractCitations text = sort_key startIndex (fst (shortPass text))"

definition fullCitations :: "string \<Rightarrow> Citation list" where
  "fullCitations text = fst (fullPass text)"

definition shortCitations :: "string \<Rightarrow> Citation list" where
  "shortCitations text = drop (length (fst (fullPass text))) (fst (shortPass text))"

subsection \<open>What a match consumes\<close>

text \<open>
  \<open>consumes ic r c\<close>: some atom of the pattern \<open>r\<close> accepts the character \<open>c\<close>; \<open>hasDot r\<close>:
  every match of \<open>r\<close> goes through a literal point. \<open>spans ic r x y\<close>: from \<open>x\<close> to \<open>y\<close> the
  matcher has consumed a word of such characters, with a point in it when \<open>hasDot r\<close>.
\<close>

fun consumes :: "bool \<Rightarrow> regex \<Rightarrow> char \<Rightarrow> bool" where
  "consumes ic (Lit a) c = sameChar ic a c"
| "consumes ic (Cls neg items) c = inClass ic neg items c"
| "consumes ic Dot c = (code c \<noteq> 10 \<and> code c \<noteq> 13)"
| "consumes ic (Seq r s) c = (consumes ic r c \<or> consumes ic s c)"
| "consumes ic (Alt r s) c = (consumes ic r c \<or> consumes ic s c)"
| "consumes ic (Rep mn mx g r) c = consumes ic r c"
| "consumes ic (Group k r) c = consumes ic r c"
| "consumes ic _ c = False"


lemma consumes_eta [simp]:
  "consumes ic (Group k r) = consumes ic r" "consumes ic (Rep mn mx g r) = consumes ic r"
  by (rule ext, simp)+










subsection \<open>What the groups of a citation capture\<close>





















subsection \<open>The fields of an extracted citation\<close>

text \<open>
  Collapsing white space and trimming keep every character that is no white space, so the
  reporter of a citation still has its point; and \<open>parseInt\<close> of a run of digits is its
  decimal value.
\<close>

declare replaceFrom.simps [simp del]

























section \<open>Sample data\<close>

definition shortCite :: "string \<Rightarrow> string \<Rightarrow> string \<Rightarrow> string option \<Rightarrow> Citation" where
  "shortCite v r p y =
     \<lparr> raw = v @ '' '' @ r @ '' '' @ p, caseName = None, volume = Some v, reporter = r,
       page = Some p, year = y, court = None, startIndex = 0,
       endIndex = length (v @ '' '' @ r @ '' '' @ p) \<rparr>"

definition candidate :: "string list \<Rightarrow> string \<Rightarrow> CourtListenerCase" where
  "candidate cites filed =
     \<lparr> id_cl = 1, absolute_url = ''/opinion/1/'', case_name = ''Roe v. Wade'',
       case_name_short = ''Roe'', citation_cl = Some cites, court_cl = ''scotus'',
       court_id = ''scotus'', date_filed = filed, docket_number = ''70-18'',
       judges = [], status_cl = ''Published'' \<rparr>"

text \<open>A service that answers every query with the same records.\<close>

definition always :: "CourtListenerCase list \<Rightarrow> service" where
  "always rs = (\<lambda>req. Response True (Some \<lparr> count = int (length rs), results = rs \<rparr>))"

text \<open>
  A service that answers the structured query with an empty result and is unreachable for
  the free-text query (the only one with a \<open>q\<close> parameter).
\<close>

definition emptyThenDown :: service where
  "emptyThenDown = (\<lambda>req. if map_of req ''q'' = None
                           then Response True (Some \<lparr> count = 0, results = [] \<rparr>) else Threw)"

lemma roe_valid: "valid (validateCitationFormat 2026 (shortCite ''410'' ''U.S.'' ''113'' (Some ''1973'')))"
  by code_simp

lemma roe_lookup:
  "lookup (always rs) (shortCite ''410'' ''U.S.'' ''113'' (Some ''1973'')) =
     (if rs = [] then (Some \<lparr> count = 0, results = [] \<rparr>,
                       [[(''citation'', ''410 U.S. 113''), (''type'', ''o'')], [(''q'', ''410 U.S. 113''), (''type'', ''o'')]])
      else (Some \<lparr> count = int (length rs), results = rs \<rparr>, [[(''citation'', ''410 U.S. 113''), (''type'', ''o'')]]))"
  by (simp add: lookup_def searchByCitation_def searchByComponents_def always_def answer_def Let_def
        buildSearchQuery_def citationStr_def shortCite_def truthy_def tmpl_def)

section \<open>The report\<close>

lemma countStatus_Cons:
  "countStatus s (r # rs) = (if status r = s then Suc (countStatus s rs) else countStatus s rs)"
  by (simp add: countStatus_def)

lemma countStatus_partition:
  "countStatus verified rs + countStatus not_found rs + countStatus partial_match rs
     + countStatus format_error rs + countStatus api_error rs = length rs"
proof (induction rs)
  case Nil
  show ?case by (simp add: countStatus_def)
next
  case (Cons r rs)
  then show ?case by (cases "status r") (simp_all add: countStatus_Cons)
qed

text \<open>
  C9. For every list of results, the five counts of the report add up to
  \<open>totalCitations\<close>, and \<open>totalCitations\<close> is the number of results given.
\<close>

theorem report_counts_sum:
  "verified_r (generateReport name rs now) + notFound (generateReport name rs now)
     + partialMatches (generateReport name rs now) + formatErrors (generateReport name rs now)
     + apiErrors (generateReport name rs now) = totalCitations (generateReport name rs now)
   \<and> totalCitations (generateReport name rs now) = length rs"
  using countStatus_partition [of rs] by (simp add: generateReport_def)

section \<open>Verification of one citation\<close>

text \<open>
  C3. A citation that fails validation is answered at once with \<open>format_error\<close>,
  confidence 0 and the validator's issues as warnings, and no request has been made.
\<close>

theorem invalid_format_error:
  assumes "\<not> valid (validateCitationFormat currentYear c)"
  shows "status (fst (verifyCitation fetch currentYear c)) = format_error
       \<and> confidence (fst (verifyCitation fetch currentYear c)) = 0
       \<and> warnings (fst (verifyCitation fetch currentYear c)) = issues (validateCitationFormat currentYear c)
       \<and> snd (verifyCitation fetch currentYear c) = []"
  using assms by (simp add: verifyCitation_def Let_def)

text \<open>The citation \<open>999 F.3d 99999\<close> fails validation, whatever the service would answer.\<close>

theorem invalid_format_error_witness:
  "\<not> valid (validateCitationFormat 2026 (shortCite ''999'' ''F.3d'' ''99999'' None))
   \<and> status (fst (verifyCitation (\<lambda>req. Threw) 2026 (shortCite ''999'' ''F.3d'' ''99999'' None))) = format_error
   \<and> confidence (fst (verifyCitation (\<lambda>req. Threw) 2026 (shortCite ''999'' ''F.3d'' ''99999'' None))) = 0
   \<and> warnings (fst (verifyCitation (\<lambda>req. Threw) 2026 (shortCite ''999'' ''F.3d'' ''99999'' None)))
       = [''Unusual page number: 99999'']
   \<and> snd (verifyCitation (\<lambda>req. Threw) 2026 (shortCite ''999'' ''F.3d'' ''99999'' None)) = []"
proof -
  have v: "validateCitationFormat 2026 (shortCite ''999'' ''F.3d'' ''99999'' None)
            = \<lparr> valid = False, issues = [''Unusual page number: 99999''] \<rparr>"
    by code_simp
  then have h: "\<not> valid (validateCitationFormat 2026 (shortCite ''999'' ''F.3d'' ''99999'' None))"
    by simp
  from invalid_format_error [OF h, of "\<lambda>req. Threw"] v h show ?thesis by simp
qed

subsection \<open>The best candidate\<close>

definition pickStep :: "Citation \<Rightarrow> CourtListenerCase option \<times> int \<Rightarrow> CourtListenerCase \<Rightarrow> CourtListenerCase option \<times> int" where
  "pickStep c = (\<lambda>(bestMatch, bestConfidence) r.
              let conf = calculateConfidence c r
              in if conf > bestConfidence then (Some r, conf) else (bestMatch, bestConfidence))"

text \<open>The confidence of the best candidate: the highest confidence, 0 when there is none.\<close>

definition bestConfidenceOf :: "Citation \<Rightarrow> SearchResponse \<Rightarrow> int" where
  "bestConfidenceOf c sr = Max (set (0 # map (calculateConfidence c) (results sr)))"

lemma pick_snd: "snd (foldl (pickStep c) (bm, bc) rs) = fold max (map (calculateConfidence c) rs) bc"
  by (induction rs arbitrary: bm bc) (auto simp: pickStep_def Let_def max_def)

lemma pick_Some: "fst (foldl (pickStep c) (Some r, bc) rs) \<noteq> None"
  by (induction rs arbitrary: r bc) (auto simp: pickStep_def Let_def)

lemma pick_None: "fst (foldl (pickStep c) (bm, bc) rs) = None \<Longrightarrow> snd (foldl (pickStep c) (bm, bc) rs) = bc"
proof (induction rs arbitrary: bm bc)
  case Nil
  show ?case by simp
next
  case (Cons r rs)
  show ?case
  proof (cases "calculateConfidence c r > bc")
    case True
    with Cons.prems pick_Some [of c r "calculateConfidence c r" rs] show ?thesis
      by (simp add: pickStep_def Let_def)
  next
    case False
    with Cons.prems Cons.IH [of bm bc] show ?thesis
      by (simp add: pickStep_def Let_def)
  qed
qed

lemma pickBest_conf: "snd (pickBest c rs) = Max (set (0 # map (calculateConfidence c) rs))"
  unfolding pickBest_def pickStep_def [symmetric]
  by (simp only: pick_snd Max.set_eq_fold)

lemma pickBest_None: "fst (pickBest c rs) = None \<Longrightarrow> snd (pickBest c rs) = 0"
  unfolding pickBest_def pickStep_def [symmetric] by (rule pick_None)

lemma verify_found:
  assumes "valid (validateCitationFormat currentYear c)"
      and "lookup fetch c = (Some sr, log)" and "count sr \<noteq> 0"
  shows "fst (verifyCitation fetch currentYear c) =
          (case fst (pickBest c (results sr)) of
             None \<Rightarrow> \<lparr> citation = c, status = not_found, confidence = 0,
                          details = ''Search returned results but none matched the citation.'',
                          courtListenerUrl = None, matchedCase = None,
                          warnings = [''No confident match found''] \<rparr>
           | Some bm \<Rightarrow> classify c bm (snd (pickBest c (results sr))) (mismatchWarnings c bm))"
  using assms by (simp add: verifyCitation_def Let_def split: prod.splits option.splits)

text \<open>
  C2. For a citation that passes validation and whose lookup succeeds with a count other
  than 0, the result carries the confidence of the best candidate and is classified by
  it: from 70 on \<open>verified\<close>; from 40 to 69 \<open>partial_match\<close>, with the "verify manually"
  warning as the last warning; below 40 \<open>not_found\<close>, without matched case and URL.
\<close>

theorem classification_boundaries:
  assumes "valid (validateCitationFormat currentYear c)"
      and "lookup fetch c = (Some sr, log)" and "count sr \<noteq> 0"
  shows "confidence (fst (verifyCitation fetch currentYear c)) = bestConfidenceOf c sr
       \<and> (70 \<le> bestConfidenceOf c sr \<longrightarrow> status (fst (verifyCitation fetch currentYear c)) = verified)
       \<and> (40 \<le> bestConfidenceOf c sr \<and> bestConfidenceOf c sr < 70 \<longrightarrow>
            status (fst (verifyCitation fetch currentYear c)) = partial_match
          \<and> last (warnings (fst (verifyCitation fetch currentYear c))) = ''Low confidence match - verify manually'')
       \<and> (bestConfidenceOf c sr < 40 \<longrightarrow>
            status (fst (verifyCitation fetch currentYear c)) = not_found
          \<and> matchedCase (fst (verifyCitation fetch currentYear c)) = None
          \<and> courtListenerUrl (fst (verifyCitation fetch currentYear c)) = None)"
proof (cases "fst (pickBest c (results sr))")
  case None
  from pickBest_None [OF None] have "bestConfidenceOf c sr = 0"
    by (simp only: bestConfidenceOf_def pickBest_conf)
  with None verify_found [OF assms] show ?thesis by simp
next
  case (Some bm)
  have b: "snd (pickBest c (results sr)) = bestConfidenceOf c sr"
    by (simp only: bestConfidenceOf_def pickBest_conf)
  from Some verify_found [OF assms] b show ?thesis by (simp add: classify_def)
qed

lemma best_70: "bestConfidenceOf (shortCite ''410'' ''U.S.'' ''113'' (Some ''1973''))
     \<lparr> count = 1, results = [candidate [''410 U.S. 113''] ''1973-01-22''] \<rparr> = 70"
  by code_simp

lemma best_40: "bestConfidenceOf (shortCite ''410'' ''U.S.'' ''113'' (Some ''1973''))
     \<lparr> count = 1, results = [candidate [''410 S. Ct. 113''] ''1974-01-22''] \<rparr> = 40"
  by code_simp

lemma best_30: "bestConfidenceOf (shortCite ''410'' ''U.S.'' ''113'' (Some ''1973''))
     \<lparr> count = 1, results = [candidate [''410 S. Ct. 113''] []] \<rparr> = 30"
  by code_simp

text \<open>
  Three candidates for \<open>410 U.S. 113\<close> of 1973, of confidence 70 (the exact citation string
  and the year), 40 (volume and page, a year off by one) and 30 (volume and page).
\<close>

theorem classification_boundaries_witness:
  "status (fst (verifyCitation (always [candidate [''410 U.S. 113''] ''1973-01-22'']) 2026
                  (shortCite ''410'' ''U.S.'' ''113'' (Some ''1973'')))) = verified
   \<and> status (fst (verifyCitation (always [candidate [''410 S. Ct. 113''] ''1974-01-22'']) 2026
                  (shortCite ''410'' ''U.S.'' ''113'' (Some ''1973'')))) = partial_match
   \<and> status (fst (verifyCitation (always [candidate [''410 S. Ct. 113''] []]) 2026
                  (shortCite ''410'' ''U.S.'' ''113'' (Some ''1973'')))) = not_found"
  using classification_boundaries [OF roe_valid, of "always [candidate [''410 U.S. 113''] ''1973-01-22'']"
          "\<lparr> count = 1, results = [candidate [''410 U.S. 113''] ''1973-01-22''] \<rparr>"]
        classification_boundaries [OF roe_valid, of "always [candidate [''410 S. Ct. 113''] ''1974-01-22'']"
          "\<lparr> count = 1, results = [candidate [''410 S. Ct. 113''] ''1974-01-22''] \<rparr>"]
        classification_boundaries [OF roe_valid, of "always [candidate [''410 S. Ct. 113''] []]"
          "\<lparr> count = 1, results = [candidate [''410 S. Ct. 113''] []] \<rparr>"]
  by (simp add: roe_lookup best_70 best_40 best_30)

subsection \<open>Failed lookups\<close>

text \<open>
  C4 as stated fails: when the structured query succeeds with no record and the free-text
  query then fails, the result is \<open>api_error\<close> although only one of the two attempts
  failed.
\<close>

theorem api_error_counterexample:
  "valid (validateCitationFormat 2026 (shortCite ''410'' ''U.S.'' ''113'' (Some ''1973'')))
   \<and> fst (searchByCitation emptyThenDown (shortCite ''410'' ''U.S.'' ''113'' (Some ''1973'')) [])
       = Some \<lparr> count = 0, results = [] \<rparr>
   \<and> status (fst (verifyCitation emptyThenDown 2026 (shortCite ''410'' ''U.S.'' ''113'' (Some ''1973''))))
       = api_error"
  by code_simp

lemma classify_not_api: "status (classify c bm b wns) \<noteq> api_error"
  by (simp add: classify_def)

text \<open>
  C4, amended. For a citation that passes validation the result is \<open>api_error\<close> exactly
  when the free-text query fails after a structured query that failed or counted no
  record; the confidence is then 0. When the last query sent succeeds and counts no
  record, the result is \<open>not_found\<close> with confidence 0.
\<close>

theorem api_error_iff_last_query_fails:
  assumes "valid (validateCitationFormat currentYear c)"
  shows "(status (fst (verifyCitation fetch currentYear c)) = api_error \<longleftrightarrow>
            (fst (searchByCitation fetch c []) = None
             \<or> (\<exists>sr. fst (searchByCitation fetch c []) = Some sr \<and> count sr = 0))
            \<and> fst (searchByComponents fetch c (snd (searchByCitation fetch c []))) = None)
       \<and> (status (fst (verifyCitation fetch currentYear c)) = api_error \<longrightarrow>
            confidence (fst (verifyCitation fetch currentYear c)) = 0)
       \<and> (\<forall>sr. fst (lookup fetch c) = Some sr \<and> count sr = 0 \<longrightarrow>
            status (fst (verifyCitation fetch currentYear c)) = not_found
          \<and> confidence (fst (verifyCitation fetch currentYear c)) = 0)"
  using assms
  by (auto simp: verifyCitation_def lookup_def Let_def classify_not_api
           split: prod.splits option.splits if_splits)

theorem api_error_iff_last_query_fails_witness:
  "valid (validateCitationFormat 2026 (shortCite ''410'' ''U.S.'' ''113'' (Some ''1973'')))
   \<and> fst (searchByCitation emptyThenDown (shortCite ''410'' ''U.S.'' ''113'' (Some ''1973'')) [])
       = Some \<lparr> count = 0, results = [] \<rparr>
   \<and> fst (searchByComponents emptyThenDown (shortCite ''410'' ''U.S.'' ''113'' (Some ''1973''))
            (snd (searchByCitation emptyThenDown (shortCite ''410'' ''U.S.'' ''113'' (Some ''1973'')) []))) = None
   \<and> status (fst (verifyCitation emptyThenDown 2026 (shortCite ''410'' ''U.S.'' ''113'' (Some ''1973'')))) = api_error
   \<and> confidence (fst (verifyCitation emptyThenDown 2026 (shortCite ''410'' ''U.S.'' ''113'' (Some ''1973'')))) = 0
   \<and> status (fst (verifyCitation (always []) 2026 (shortCite ''410'' ''U.S.'' ''113'' (Some ''1973'')))) = not_found
   \<and> confidence (fst (verifyCitation (always []) 2026 (shortCite ''410'' ''U.S.'' ''113'' (Some ''1973'')))) = 0"
proof -
  have s1: "fst (searchByCitation emptyThenDown (shortCite ''410'' ''U.S.'' ''113'' (Some ''1973'')) [])
       = Some \<lparr> count = 0, results = [] \<rparr>"
    by code_simp
  have s2: "fst (searchByComponents emptyThenDown (shortCite ''410'' ''U.S.'' ''113'' (Some ''1973''))
            (snd (searchByCitation emptyThenDown (shortCite ''410'' ''U.S.'' ''113'' (Some ''1973'')) []))) = None"
    by code_simp
  from api_error_iff_last_query_fails [OF roe_valid, of emptyThenDown]
       api_error_iff_last_query_fails [OF roe_valid, of "always []"]
       s1 s2 roe_valid roe_lookup [of "[]"]
  show ?thesis by simp
qed

subsection \<open>The citation-string part of the confidence\<close>

text \<open>
  C6 as stated fails: the second citation string of the candidate contains the exact
  token, but the first one, which only contains the volume and the page, decides: 30.
\<close>

theorem citation_score_counterexample:
  "includesStr (toLowerCase ''410 U.S. 113'')
     (toLowerCase (citationStr (shortCite ''410'' ''U.S.'' ''113'' None)))
   \<and> citationStringScore (shortCite ''410'' ''U.S.'' ''113'' None) [''410 S. Ct. 113'', ''410 U.S. 113''] = 30"
  by code_simp

text \<open>The two tests of the loop, in the words of the specification.\<close>

definition exactCite :: "Citation \<Rightarrow> string \<Rightarrow> bool" where
  "exactCite c s = includesStr (toLowerCase s) (toLowerCase (citationStr c))"

definition partialCite :: "Citation \<Rightarrow> string \<Rightarrow> bool" where
  "partialCite c s = (includesStr s (orElse (volume c) []) \<and> includesStr s (orElse (page c) []))"

text \<open>
  C6, amended. The first citation string of the candidate that passes either test
  decides alone: 50 if it contains the exact token (case-insensitively), 30 if it only
  contains the volume and the page; 0 if no string passes a test. So the part is 0, 30
  or 50: it contributes at most once.
\<close>

theorem citation_score_first_qualifying:
  "citationStringScore c cites =
     (case find (\<lambda>s. exactCite c s \<or> partialCite c s) cites of
        None \<Rightarrow> 0
      | Some s \<Rightarrow> if exactCite c s then 50 else 30)"
  by (induction cites) (simp_all add: exactCite_def partialCite_def)

section \<open>Format validation\<close>

text \<open>
  Citation records are created by the extractor only, and \<open>verifyCitation\<close> is the one
  caller of the validator. A record built by hand can differ: \<open>constructor\<close> is no key of
  the Reporter Table, yet the lookup finds the property every object inherits; and a
  volume that is no number gives \<open>NaN\<close>, which passes both range tests. No text makes the
  extractor return such a record (\<open>extracted_wellFormed\<close>).
\<close>

lemma validate_hand_built:
  "validateCitationFormat 2026 (shortCite ''1'' ''constructor'' ''1'' None) = \<lparr> valid = True, issues = [] \<rparr>
   \<and> map_of ALL_REPORTERS ''constructor'' = None
   \<and> validateCitationFormat 2026 (shortCite ''abc'' ''U.S.'' ''1'' None) = \<lparr> valid = True, issues = [] \<rparr>
   \<and> parseInt ''abc'' = None"
  by code_simp


section \<open>Properties of the extraction\<close>

text \<open>The key by which the passes deduplicate: the normalized raw text of a citation.\<close>

definition keyOf :: "Citation \<Rightarrow> string" where
  "keyOf c = normalizeWhitespace (raw c)"

text \<open>
  Relations between the spans of two citations: \<open>a\<close> ends before \<open>b\<close> starts; \<open>d\<close> starts
  inside \<open>c\<close>; \<open>a\<close> and \<open>b\<close> have a position in common.
\<close>

definition before :: "Citation \<Rightarrow> Citation \<Rightarrow> bool" where
  "before a b = (endIndex a \<le> startIndex b)"

definition startsInside :: "Citation \<Rightarrow> Citation \<Rightarrow> bool" where
  "startsInside c d = (startIndex c \<le> startIndex d \<and> startIndex d < endIndex c)"

definition overlap :: "Citation \<Rightarrow> Citation \<Rightarrow> bool" where
  "overlap a b = (startIndex a < endIndex b \<and> startIndex b < endIndex a)"

lemma length_trim: "length (trim s) \<le> length s"
proof -
  have "length (trim s) \<le> length (dropWhile isWhiteSpace s)"
    using length_dropWhile_le [of isWhiteSpace "rev (dropWhile isWhiteSpace s)"]
    by (simp add: trim_def)
  also have "\<dots> \<le> length s" by (rule length_dropWhile_le)
  finally show ?thesis .
qed

lemma fullRecord_span [simp]:
  "startIndex (fullRecord m) = mindex m" "endIndex (fullRecord m) \<le> lastIndexOf m"
  "keyOf (fullRecord m) = normalizeWhitespace (trim (whole m))"
  using length_trim [of "whole m"] by (simp_all add: fullRecord_def lastIndexOf_def keyOf_def)

lemma shortRecord_span [simp]:
  "startIndex (shortRecord text m) = mindex m" "endIndex (shortRecord text m) \<le> lastIndexOf m"
  "keyOf (shortRecord text m) = normalizeWhitespace (trim (whole m))"
  using length_trim [of "whole m"] by (simp_all add: shortRecord_def lastIndexOf_def keyOf_def)

lemma exec_order:
  assumes "exec ic r text li = Some m"
  shows "li \<le> mindex m" and "li \<le> lastIndexOf m"
  using exec_bounds(1) [OF assms] by (simp_all add: lastIndexOf_def)

lemma fullLoop_before:
  assumes "sorted_wrt before cs" and "\<forall>c\<in>set cs. endIndex c \<le> li"
  shows "sorted_wrt before (fst (fullLoop text li cs seen))"
  using assms
proof (induction "text" li cs seen rule: fullLoop.induct)
  case (1 t li cs seen)
  show ?case
  proof (cases "exec True fullCitation t li")
    case None
    with "1.prems" show ?thesis by (subst fullLoop.simps) simp
  next
    case (Some m)
    note ord = exec_order [OF Some]
    show ?thesis
    proof (cases "normalizeWhitespace (trim (whole m)) \<in> seen")
      case True
      from "1.prems"(2) ord(2) have "\<forall>c\<in>set cs. endIndex c \<le> lastIndexOf m" by fastforce
      from "1.IH"(1) [OF Some True "1.prems"(1) this] Some True
      show ?thesis by (subst fullLoop.simps) simp
    next
      case False
      from "1.prems"(2) ord(1) have a: "\<forall>c\<in>set cs. before c (fullRecord m)"
        by (fastforce simp: before_def)
      with "1.prems"(1) have s: "sorted_wrt before (cs @ [fullRecord m])"
        by (simp add: sorted_wrt_append)
      from "1.prems"(2) ord(2) have "\<forall>c\<in>set (cs @ [fullRecord m]). endIndex c \<le> lastIndexOf m"
        by fastforce
      from "1.IH"(2) [OF Some False s this] Some False
      show ?thesis by (subst fullLoop.simps) simp
    qed
  qed
qed


lemma shortLoop_before:
  assumes "cs = fulls @ shorts" and "sorted_wrt before shorts"
      and "\<forall>c\<in>set shorts. endIndex c \<le> li"
      and "\<forall>f\<in>set fulls. \<forall>s\<in>set shorts. \<not> startsInside f s"
  shows "\<exists>shorts'. fst (shortLoop text li cs seen) = fulls @ shorts'
           \<and> sorted_wrt before shorts'
           \<and> (\<forall>f\<in>set fulls. \<forall>s\<in>set shorts'. \<not> startsInside f s)"
  using assms
proof (induction "text" li cs seen arbitrary: shorts rule: shortLoop.induct)
  case (1 t li cs seen)
  show ?case
  proof (cases "exec True shortCitation t li")
    case None
    with "1.prems" show ?thesis by (subst shortLoop.simps) simp
  next
    case (Some m)
    note ord = exec_order [OF Some]
    from "1.prems"(3) ord(2) have ends: "\<forall>c\<in>set shorts. endIndex c \<le> lastIndexOf m" by fastforce
    show ?thesis
    proof (cases "normalizeWhitespace (trim (whole m)) \<in> seen")
      case True
      from "1.IH"(1) [OF Some True "1.prems"(1,2) ends "1.prems"(4)] Some True
      show ?thesis by (subst shortLoop.simps) simp
    next
      case False
      show ?thesis
      proof (cases "list_ex (\<lambda>c. startIndex c \<le> mindex m \<and> mindex m < endIndex c) cs")
        case True
        from "1.IH"(2) [OF Some False True "1.prems"(1,2) ends "1.prems"(4)] Some False True
        show ?thesis by (subst shortLoop.simps) simp
      next
        case free: False
        let ?c = "shortRecord t m"
        have eq: "cs @ [?c] = fulls @ (shorts @ [?c])" using "1.prems"(1) by simp
        from "1.prems"(3) ord(1) have "\<forall>c\<in>set shorts. before c ?c"
          by (fastforce simp: before_def)
        with "1.prems"(2) have s: "sorted_wrt before (shorts @ [?c])"
          by (simp add: sorted_wrt_append)
        from ends have e: "\<forall>c\<in>set (shorts @ [?c]). endIndex c \<le> lastIndexOf m" by simp
        from free "1.prems"(1) have "\<forall>f\<in>set fulls. \<not> startsInside f ?c"
          by (simp add: list_ex_iff startsInside_def)
        with "1.prems"(4) have n: "\<forall>f\<in>set fulls. \<forall>s\<in>set (shorts @ [?c]). \<not> startsInside f s"
          by auto
        from "1.IH"(3) [OF Some False free eq s e n] Some False free
        show ?thesis by (subst shortLoop.simps) simp
      qed
    qed
  qed
qed


lemma passes_split:
  "fst (shortPass text) = fullCitations text @ shortCitations text
   \<and> sorted_wrt before (shortCitations text)
   \<and> (\<forall>f\<in>set (fullCitations text). \<forall>s\<in>set (shortCitations text). \<not> startsInside f s)"
proof -
  from shortLoop_before [of "fst (fullPass text)" "fst (fullPass text)" "[]" 0 "text" "snd (fullPass text)"]
  obtain shorts' where a: "fst (shortPass text) = fst (fullPass text) @ shorts'"
    and b: "sorted_wrt before shorts'"
    and c: "\<forall>f\<in>set (fst (fullPass text)). \<forall>s\<in>set shorts'. \<not> startsInside f s"
    by (auto simp: shortPass_def)
  from a have "shortCitations text = shorts'" by (simp add: shortCitations_def)
  with a b c show ?thesis by (simp add: fullCitations_def)
qed

lemma extract_split:
  "extractCitations text = sort_key startIndex (fullCitations text @ shortCitations text)"
  using passes_split [of "text"] by (simp add: extractCitations_def)

text \<open>
  C1, amended. The result holds the citations of the full pass and of the short pass,
  sorted. Each pass lists its citations in text order with each ending before the next
  starts, so two citations of the same pass are disjoint; and no citation of the short
  pass starts inside a citation of the full pass. (A citation of the short pass that
  starts before a citation of the full pass may still run over it.)
\<close>

theorem same_pass_disjoint:
  "extractCitations text = sort_key startIndex (fullCitations text @ shortCitations text)
   \<and> sorted_wrt before (fullCitations text)
   \<and> sorted_wrt before (shortCitations text)
   \<and> (\<forall>f\<in>set (fullCitations text). \<forall>s\<in>set (shortCitations text). \<not> startsInside f s)"
  using passes_split [of "text"] fullLoop_before [of "[]" 0 "text" "{}"]
  by (simp add: extractCitations_def fullCitations_def fullPass_def)




subsection \<open>The scenarios\<close>

lemma passes_nested:
  "fullCitations ''1 F. 2 (Ab v. Cd, 3 F. 4 1999)'' =
     [\<lparr>raw = ''Ab v. Cd, 3 F. 4'', caseName = Some ''Ab v. Cd'',
        volume = Some ''3'', reporter = ''F.'', page = Some ''4'',
        year = None, court = None, startIndex = 8, endIndex = 24\<rparr>]
   \<and> shortCitations ''1 F. 2 (Ab v. Cd, 3 F. 4 1999)'' =
     [\<lparr>raw = ''1 F. 2 (Ab v. Cd, 3 F. 4 1999)'', caseName = None,
        volume = Some ''1'', reporter = ''F.'', page = Some ''2'',
        year = Some ''1999'', court = Some ''Ab v. Cd, 3 F. 4'',
        startIndex = 0, endIndex = 30\<rparr>]"
  by code_simp

text \<open>
  C1 as stated fails. In \<open>1 F. 2 (Ab v. Cd, 3 F. 4 1999)\<close> the full pass finds
  \<open>Ab v. Cd, 3 F. 4\<close> at 8 to 24. The short pass matches the whole text, taking the
  parenthetical for court and year; the match starts at 0, outside the full citation, so
  it is kept, and the two citations returned overlap.
\<close>

theorem nested_citation_counterexample:
  "length (extractCitations ''1 F. 2 (Ab v. Cd, 3 F. 4 1999)'') = 2
   \<and> overlap (extractCitations ''1 F. 2 (Ab v. Cd, 3 F. 4 1999)'' ! 0)
              (extractCitations ''1 F. 2 (Ab v. Cd, 3 F. 4 1999)'' ! 1)"
  using passes_nested
  by (simp add: extract_split [of "''1 F. 2 (Ab v. Cd, 3 F. 4 1999)''"] overlap_def)

text \<open>On the same text: the short citation does not start inside the full one.\<close>

theorem same_pass_disjoint_witness:
  "fullCitations ''1 F. 2 (Ab v. Cd, 3 F. 4 1999)'' \<noteq> []
   \<and> shortCitations ''1 F. 2 (Ab v. Cd, 3 F. 4 1999)'' \<noteq> []
   \<and> \<not> startsInside (hd (fullCitations ''1 F. 2 (Ab v. Cd, 3 F. 4 1999)''))
                      (hd (shortCitations ''1 F. 2 (Ab v. Cd, 3 F. 4 1999)''))"
  using same_pass_disjoint [of "''1 F. 2 (Ab v. Cd, 3 F. 4 1999)''"] passes_nested
  by simp

text \<open>
  C7 on its text. One citation is returned, with the case name, volume, reporter and
  page of the claim, but without a year and with the raw text ending at the page: the
  parenthetical \<open>\(([^)]+?)\s*(\d{4})\)\<close> wants at least one character before the four
  digits of the year, which \<open>(1973)\<close> does not have.
\<close>

theorem roe_year_missing:
  "extractCitations ''Roe v. Wade, 410 U.S. 113 (1973)'' =
     [\<lparr>raw = ''Roe v. Wade, 410 U.S. 113'', caseName = Some ''Roe v. Wade'',
        volume = Some ''410'', reporter = ''U.S.'', page = Some ''113'',
        year = None, court = None, startIndex = 0, endIndex = 25\<rparr>]"
  by code_simp

lemma extract_see:
  "extractCitations ''see 999 F.3d 999999'' =
     [\<lparr>raw = ''999 F.3d 99999'', caseName = None, volume = Some ''999'',
        reporter = ''F.3d'', page = Some ''99999'', year = None, court = None,
        startIndex = 4, endIndex = 18\<rparr>]"
  by code_simp


text \<open>
  C8 as stated fails: the page group \<open>(\d{1,5})\<close> takes five digits, so the page of the
  citation is \<open>99999\<close>; the sixth digit is left over.
\<close>

theorem see_page_counterexample:
  "map page (extractCitations ''see 999 F.3d 999999'') = [Some ''99999'']"
  by (simp add: extract_see)

lemma see_parts:
  "parseInt ''999'' = Some 999" "parseInt ''99999'' = Some 99999"
  "replaceAll False (many1 ws) '' '' ''F.3d'' = ''F.3d''"
  "lookupTruthy ALL_REPORTERS ''F.3d''"
  by code_simp+

lemma see_invalid:
  "validateCitationFormat currentYear
     \<lparr>raw = ''999 F.3d 99999'', caseName = None, volume = Some ''999'',
        reporter = ''F.3d'', page = Some ''99999'', year = None, court = None,
        startIndex = 4, endIndex = 18\<rparr>
   = \<lparr> valid = False, issues = [''Unusual page number: 99999''] \<rparr>"
  by (simp add: validateCitationFormat_def Let_def see_parts orElse_def tmpl_def truthy_def outside_def)

text \<open>
  C8, amended. On \<open>see 999 F.3d 999999\<close> exactly one citation is returned, with page
  \<open>99999\<close>; the validator reports the page as an issue; and \<open>verifyCitation\<close> answers
  \<open>format_error\<close> without a request, whatever the year and the service.
\<close>

theorem see_format_error:
  "extractCitations ''see 999 F.3d 999999'' =
     [\<lparr>raw = ''999 F.3d 99999'', caseName = None, volume = Some ''999'',
        reporter = ''F.3d'', page = Some ''99999'', year = None, court = None,
        startIndex = 4, endIndex = 18\<rparr>]
   \<and> issues (validateCitationFormat currentYear (hd (extractCitations ''see 999 F.3d 999999'')))
       = [''Unusual page number: 99999'']
   \<and> status (fst (verifyCitation fetch currentYear (hd (extractCitations ''see 999 F.3d 999999''))))
       = format_error
   \<and> snd (verifyCitation fetch currentYear (hd (extractCitations ''see 999 F.3d 999999''))) = []"
  by (simp add: extract_see see_invalid verifyCitation_def Let_def)

end
